theory Spec2Isabelle
  imports Complex_Main "HOL-Library.AList" "HOL-Library.Sublist"
begin

section \<open>Values decoded from JSON\<close>

text \<open>
  The operations of \<^verbatim>\<open>postman_operations.py\<close> work on what \<^verbatim>\<open>json.load\<close> returns:
  \<^verbatim>\<open>None\<close>, \<^verbatim>\<open>bool\<close>, \<^verbatim>\<open>int\<close>, \<^verbatim>\<open>float\<close>, \<^verbatim>\<open>str\<close>, \<^verbatim>\<open>list\<close> and \<^verbatim>\<open>dict\<close> with
  string keys. A \<^verbatim>\<open>dict\<close> keeps insertion order, so it is an association list; Python
  never holds the same key twice, which is the predicate \<open>keys_distinct\<close> below.
  Python's \<^verbatim>\<open>None\<close> is at the same time the decoded JSON \<^verbatim>\<open>null\<close> and the value the
  endpoint filter returns for "absent": both are the constructor \<open>JNone\<close>.
  A float is kept by its value: a finite rational, negative zero, the two infinities or
  NaN (\<^verbatim>\<open>json.load\<close> accepts \<^verbatim>\<open>NaN\<close>, \<^verbatim>\<open>Infinity\<close> and \<^verbatim>\<open>-Infinity\<close>).
  The \<^verbatim>\<open>logger\<close> argument of every function only writes log lines and is left out.
  The interpreter's recursion limit is not modelled.
\<close>

datatype pyfloat = FFinite rat | FNegZero | FPosInf | FNegInf | FNaN

datatype json =
    JNone
  | JBool bool
  | JInt int
  | JFloat pyfloat
  | JStr string
  | JList "json list"
  | JDict "(string \<times> json) list"

text \<open>
  The exceptions the modelled code can raise. \<open>OSError\<close> stands for every operating
  system error other than \<^verbatim>\<open>FileNotFoundError\<close>, which is its subclass.
\<close>

datatype error =
    FileNotFoundError
  | JSONDecodeError
  | KeyError
  | TypeError
  | AttributeError
  | OSError

text \<open>The invariant of Python dictionaries, at every depth: no key occurs twice.\<close>

fun keys_distinct :: "json \<Rightarrow> bool"
  and keys_distinct_items :: "(string \<times> json) list \<Rightarrow> bool"
  and keys_distinct_list :: "json list \<Rightarrow> bool"
where
  "keys_distinct (JDict kvs) = (distinct (map fst kvs) \<and> keys_distinct_items kvs)"
| "keys_distinct (JList xs) = keys_distinct_list xs"
| "keys_distinct v = True"
| "keys_distinct_items [] = True"
| "keys_distinct_items ((k, v) # rest) = (keys_distinct v \<and> keys_distinct_items rest)"
| "keys_distinct_list [] = True"
| "keys_distinct_list (x # xs) = (keys_distinct x \<and> keys_distinct_list xs)"

text \<open>Truth value of an object, as \<^verbatim>\<open>not x\<close> and \<^verbatim>\<open>x if x else y\<close> test it.\<close>

fun truthy :: "json \<Rightarrow> bool" where
  "truthy JNone = False"
| "truthy (JBool b) = b"
| "truthy (JInt i) = (i \<noteq> 0)"
| "truthy (JFloat f) = (f \<noteq> FFinite 0 \<and> f \<noteq> FNegZero)"
| "truthy (JStr s) = (s \<noteq> [])"
| "truthy (JList xs) = (xs \<noteq> [])"
| "truthy (JDict kvs) = (kvs \<noteq> [])"

text \<open>\<^verbatim>\<open>d.get(k, dflt)\<close> and \<^verbatim>\<open>k in d\<close> on a dictionary; \<^verbatim>\<open>d[k] = v\<close> is \<open>AList.update\<close>.\<close>

definition dict_get :: "(string \<times> 'v) list \<Rightarrow> string \<Rightarrow> 'v \<Rightarrow> 'v" where
  "dict_get d k dflt = (case map_of d k of None \<Rightarrow> dflt | Some v \<Rightarrow> v)"

definition has_key :: "(string \<times> 'v) list \<Rightarrow> string \<Rightarrow> bool" where
  "has_key d k = (map_of d k \<noteq> None)"

section \<open>remove_descriptions\<close>

text \<open>
  \<^verbatim>\<open>
  if isinstance(data, dict):
      result = {}
      for key, value in data.items():
          if key == 'description':
              continue
          result[key] = remove_descriptions(value, logger)
      return result
  elif isinstance(data, list):
      return [remove_descriptions(item, logger) for item in data]
  else:
      return data
  \<close>
  The loop over \<^verbatim>\<open>data.items()\<close> is \<open>remove_descriptions_items\<close>, with \<^verbatim>\<open>result\<close> as
  its accumulator; the list comprehension is \<open>remove_descriptions_list\<close>.
\<close>

fun remove_descriptions :: "json \<Rightarrow> json"
  and remove_descriptions_items ::
    "(string \<times> json) list \<Rightarrow> (string \<times> json) list \<Rightarrow> (string \<times> json) list"
  and remove_descriptions_list :: "json list \<Rightarrow> json list"
where
  "remove_descriptions (JDict kvs) = JDict (remove_descriptions_items kvs [])"
| "remove_descriptions (JList xs) = JList (remove_descriptions_list xs)"
| "remove_descriptions v = v"
| "remove_descriptions_items [] result = result"
| "remove_descriptions_items ((key, val) # rest) result =
     (if key = ''description'' then remove_descriptions_items rest result
      else remove_descriptions_items rest
             (AList.update key (remove_descriptions val) result))"
| "remove_descriptions_list [] = []"
| "remove_descriptions_list (x # xs) = remove_descriptions x # remove_descriptions_list xs"

section \<open>filter_by_endpoint_type\<close>

text \<open>
  \<^verbatim>\<open>'request' in data and isinstance(data['request'], dict) and 'method' in data['request']\<close>
  and the value \<^verbatim>\<open>data['request']['method']\<close> read under that test.
\<close>

definition is_request_item :: "(string \<times> json) list \<Rightarrow> bool" where
  "is_request_item d =
     (has_key d ''request'' \<and>
      (case dict_get d ''request'' JNone of
         JDict r \<Rightarrow> has_key r ''method''
       | _ \<Rightarrow> False))"

definition request_method :: "(string \<times> json) list \<Rightarrow> json" where
  "request_method d =
     (case dict_get d ''request'' JNone of
        JDict r \<Rightarrow> dict_get r ''method'' JNone
      | _ \<Rightarrow> JNone)"

text \<open>
  \<^verbatim>\<open>endpoint_type\<close> is a \<^verbatim>\<open>str\<close>, and a \<^verbatim>\<open>str\<close> compares equal to nothing but a
  \<^verbatim>\<open>str\<close> of the same characters, so \<^verbatim>\<open>data['request']['method'] != endpoint_type\<close> is
  \<open>request_method d \<noteq> JStr endpoint_type\<close>. The result \<open>JNone\<close> is Python's \<^verbatim>\<open>None\<close>.
\<close>

fun filter_by_endpoint_type :: "json \<Rightarrow> string \<Rightarrow> json"
  and filter_by_endpoint_type_items ::
    "(string \<times> json) list \<Rightarrow> string \<Rightarrow> (string \<times> json) list \<Rightarrow> (string \<times> json) list"
  and filter_by_endpoint_type_list :: "json list \<Rightarrow> string \<Rightarrow> json list"
where
  "filter_by_endpoint_type (JDict d) endpoint_type =
     (if is_request_item d \<and> request_method d \<noteq> JStr endpoint_type then JNone
      else
        let result = filter_by_endpoint_type_items d endpoint_type [] in
        if has_key d ''item'' \<and> \<not> truthy (dict_get result ''item'' (JList [])) then JNone
        else JDict result)"
| "filter_by_endpoint_type (JList xs) endpoint_type =
     (let filtered_list = filter_by_endpoint_type_list xs endpoint_type in
      if filtered_list \<noteq> [] then JList filtered_list else JNone)"
| "filter_by_endpoint_type v endpoint_type = v"
| "filter_by_endpoint_type_items [] endpoint_type result = result"
| "filter_by_endpoint_type_items ((key, val) # rest) endpoint_type result =
     (let filtered_value = filter_by_endpoint_type val endpoint_type in
      if filtered_value \<noteq> JNone
      then filter_by_endpoint_type_items rest endpoint_type
             (AList.update key filtered_value result)
      else filter_by_endpoint_type_items rest endpoint_type result)"
| "filter_by_endpoint_type_list [] endpoint_type = []"
| "filter_by_endpoint_type_list (x # xs) endpoint_type =
     (let filtered_item = filter_by_endpoint_type x endpoint_type in
      if filtered_item \<noteq> JNone
      then filtered_item # filter_by_endpoint_type_list xs endpoint_type
      else filter_by_endpoint_type_list xs endpoint_type)"

section \<open>Equality and membership of decoded values\<close>

text \<open>
  \<^verbatim>\<open>x in ys\<close> on a list, and the comparison of lists and dictionaries, test
  \<^verbatim>\<open>x is y or x == y\<close> on each pair. \<^verbatim>\<open>True == 1 == 1.0\<close> holds, an \<^verbatim>\<open>int\<close> and a
  \<^verbatim>\<open>float\<close> are compared by value, \<^verbatim>\<open>0.0 == -0.0\<close>, dictionaries are compared without
  regard to order, and values of different kinds are unequal. The decoder returns the one
  object \<^verbatim>\<open>json.decoder.NaN\<close> for every \<^verbatim>\<open>NaN\<close> literal, so through the identity test a
  decoded NaN is found equal to a decoded NaN.
\<close>

datatype pynum = NInt int | NFloat pyfloat

fun as_number :: "json \<Rightarrow> pynum option" where
  "as_number (JBool b) = Some (NInt (if b then 1 else 0))"
| "as_number (JInt i) = Some (NInt i)"
| "as_number (JFloat f) = Some (NFloat f)"
| "as_number v = None"

fun float_norm :: "pyfloat \<Rightarrow> pyfloat" where
  "float_norm FNegZero = FFinite 0"
| "float_norm f = f"

fun num_eq :: "pynum \<Rightarrow> pynum \<Rightarrow> bool" where
  "num_eq (NInt i) (NInt j) = (i = j)"
| "num_eq (NInt i) (NFloat f) = (float_norm f = FFinite (of_int i))"
| "num_eq (NFloat f) (NInt i) = (float_norm f = FFinite (of_int i))"
| "num_eq (NFloat f) (NFloat g) = (float_norm f = float_norm g)"

fun py_eq :: "json \<Rightarrow> json \<Rightarrow> bool"
  and py_eq_list :: "json list \<Rightarrow> json list \<Rightarrow> bool"
  and py_eq_items :: "(string \<times> json) list \<Rightarrow> (string \<times> json) list \<Rightarrow> bool"
where
  "py_eq (JList xs) b = (case b of JList ys \<Rightarrow> py_eq_list xs ys | _ \<Rightarrow> False)"
| "py_eq (JDict d) b =
     (case b of JDict e \<Rightarrow> length d = length e \<and> py_eq_items d e | _ \<Rightarrow> False)"
| "py_eq JNone b = (b = JNone)"
| "py_eq (JStr s) b = (b = JStr s)"
| "py_eq a b =
     (case as_number a of
        None \<Rightarrow> False
      | Some m \<Rightarrow> (case as_number b of None \<Rightarrow> False | Some n \<Rightarrow> num_eq m n))"
| "py_eq_list [] ys = (ys = [])"
| "py_eq_list (x # xs) ys =
     (case ys of [] \<Rightarrow> False | y # ys' \<Rightarrow> py_eq x y \<and> py_eq_list xs ys')"
| "py_eq_items [] e = True"
| "py_eq_items ((k, v) # rest) e =
     (case map_of e k of None \<Rightarrow> False | Some w \<Rightarrow> py_eq v w \<and> py_eq_items rest e)"

text \<open>
  \<^verbatim>\<open>x in c\<close> for a container \<^verbatim>\<open>c\<close> of any decoded kind: a list is searched with the
  comparison above, a string takes a string and tests for a substring, a dictionary
  looks the key up (lists and dictionaries are unhashable), and the other kinds are not
  iterable.
\<close>

fun py_in :: "json \<Rightarrow> json \<Rightarrow> error + bool" where
  "py_in x (JList ws) = Inr (list_ex (py_eq x) ws)"
| "py_in x (JStr s) = (case x of JStr t \<Rightarrow> Inr (sublist t s) | _ \<Rightarrow> Inl TypeError)"
| "py_in x (JDict d) =
     (case x of
        JList _ \<Rightarrow> Inl TypeError
      | JDict _ \<Rightarrow> Inl TypeError
      | JStr k \<Rightarrow> Inr (has_key d k)
      | _ \<Rightarrow> Inr False)"
| "py_in x c = Inl TypeError"

text \<open>\<^verbatim>\<open>c[k]\<close> with a string \<^verbatim>\<open>k\<close>.\<close>

fun py_getitem :: "json \<Rightarrow> string \<Rightarrow> error + json" where
  "py_getitem (JDict d) k = (case map_of d k of None \<Rightarrow> Inl KeyError | Some v \<Rightarrow> Inr v)"
| "py_getitem c k = Inl TypeError"

section \<open>filter_by_whitelist_folders\<close>

text \<open>
  \<^verbatim>\<open>
  if not isinstance(data, dict) or 'item' not in data:
      return data
  data['item'] = [item for item in data['item'] if item.get('name') in whitelist_folders]
  return data
  \<close>
  \<open>iter_values\<close> is what \<^verbatim>\<open>for item in data['item']\<close> yields, \<open>item_get_name\<close> is
  \<^verbatim>\<open>item.get('name')\<close> (only a dictionary has \<^verbatim>\<open>get\<close>), and the comprehension stops at
  the first exception, before anything is assigned.
\<close>

fun iter_values :: "json \<Rightarrow> error + json list" where
  "iter_values (JList xs) = Inr xs"
| "iter_values (JStr s) = Inr (map (\<lambda>c. JStr [c]) s)"
| "iter_values (JDict d) = Inr (map (\<lambda>kv. JStr (fst kv)) d)"
| "iter_values v = Inl TypeError"

fun item_get_name :: "json \<Rightarrow> error + json" where
  "item_get_name (JDict d) = Inr (dict_get d ''name'' JNone)"
| "item_get_name v = Inl AttributeError"

fun whitelist_comprehension :: "json list \<Rightarrow> json \<Rightarrow> error + json list" where
  "whitelist_comprehension [] whitelist_folders = Inr []"
| "whitelist_comprehension (item # rest) whitelist_folders =
     (case item_get_name item of
        Inl e \<Rightarrow> Inl e
      | Inr n \<Rightarrow>
          (case py_in n whitelist_folders of
             Inl e \<Rightarrow> Inl e
           | Inr keep \<Rightarrow>
               (case whitelist_comprehension rest whitelist_folders of
                  Inl e \<Rightarrow> Inl e
                | Inr kept \<Rightarrow> Inr (if keep then item # kept else kept))))"

fun filter_by_whitelist_folders :: "json \<Rightarrow> json \<Rightarrow> error + json" where
  "filter_by_whitelist_folders (JDict d) whitelist_folders =
     (if \<not> has_key d ''item'' then Inr (JDict d)
      else
        (case iter_values (dict_get d ''item'' JNone) of
           Inl e \<Rightarrow> Inl e
         | Inr items \<Rightarrow>
             (case whitelist_comprehension items whitelist_folders of
                Inl e \<Rightarrow> Inl e
              | Inr kept \<Rightarrow> Inr (JDict (AList.update ''item'' (JList kept) d)))))"
| "filter_by_whitelist_folders data whitelist_folders = Inr data"

section \<open>read_whitelist_folders and the entry point\<close>

text \<open>
  The file system and the JSON parser are the environment: a path is missing, present
  but not readable as text (any other \<^verbatim>\<open>OSError\<close>, or undecodable bytes), or holds a
  text; \<open>json_load\<close> is \<^verbatim>\<open>json.load\<close>, with \<open>None\<close> for \<^verbatim>\<open>JSONDecodeError\<close>;
  \<open>open_write\<close> is the exception, if any, of opening a path for writing.
\<close>

datatype file_state = Missing | Unreadable | Readable string

record world =
  files :: "string \<Rightarrow> file_state"
  json_load :: "string \<Rightarrow> json option"
  open_write :: "string \<Rightarrow> error option"

definition read_whitelist_folders :: "world \<Rightarrow> string \<Rightarrow> error + json" where
  "read_whitelist_folders w file_path =
     (case files w file_path of
        Missing \<Rightarrow> Inl FileNotFoundError
      | Unreadable \<Rightarrow> Inl OSError
      | Readable text \<Rightarrow>
          (case json_load w text of
             None \<Rightarrow> Inl JSONDecodeError
           | Some data \<Rightarrow>
               (case py_in (JStr ''folders'') data of
                  Inl e \<Rightarrow> Inl e
                | Inr present \<Rightarrow>
                    if \<not> present then Inl KeyError else py_getitem data ''folders'')))"

definition read_postman_collection :: "world \<Rightarrow> string \<Rightarrow> error + json" where
  "read_postman_collection w file_path =
     (if files w file_path = Missing then Inl FileNotFoundError
      else
        (case files w file_path of
           Missing \<Rightarrow> Inl FileNotFoundError
         | Unreadable \<Rightarrow> Inl OSError
         | Readable text \<Rightarrow>
             (case json_load w text of None \<Rightarrow> Inl JSONDecodeError | Some data \<Rightarrow> Inr data)))"

definition write_postman_subset :: "world \<Rightarrow> json \<Rightarrow> string \<Rightarrow> error + (string \<times> json)" where
  "write_postman_subset w collection file_path =
     (case open_write w file_path of
        Some e \<Rightarrow> Inl e
      | None \<Rightarrow> Inr (file_path, collection))"

text \<open>
  The parsed command line. A flag that was not given is \<open>None\<close>; \<^verbatim>\<open>if args.x:\<close> also
  skips an empty string.
\<close>

record args =
  arg_input_file :: string
  arg_output_file :: string
  arg_remove_descriptions :: bool
  arg_only_endpoints_type :: "string option"
  arg_whitelist_folders :: "string option"

definition given :: "string option \<Rightarrow> bool" where
  "given opt = (case opt of None \<Rightarrow> False | Some s \<Rightarrow> s \<noteq> [])"

text \<open>
  \<open>whitelist_stage\<close> is the block under \<^verbatim>\<open>if args.whitelist_folders:\<close>; its last line
  calls \<^verbatim>\<open>collection.get('item')\<close>, which only a dictionary has.
\<close>

definition whitelist_stage :: "world \<Rightarrow> string \<Rightarrow> json \<Rightarrow> error + json" where
  "whitelist_stage w file_path collection =
     (case read_whitelist_folders w file_path of
        Inl e \<Rightarrow> Inl e
      | Inr whitelist_folders \<Rightarrow>
          (case filter_by_whitelist_folders collection whitelist_folders of
             Inl e \<Rightarrow> Inl e
           | Inr filtered \<Rightarrow>
               (case filtered of JDict d \<Rightarrow> Inr filtered | _ \<Rightarrow> Inl AttributeError)))"

text \<open>The body of the \<^verbatim>\<open>try\<close> block of \<^verbatim>\<open>main\<close>, from the parsed arguments on.\<close>

definition main_body :: "world \<Rightarrow> args \<Rightarrow> error + (string \<times> json)" where
  "main_body w a =
     (case read_postman_collection w (arg_input_file a) of
        Inl e \<Rightarrow> Inl e
      | Inr collection \<Rightarrow>
          (case (if given (arg_whitelist_folders a)
                 then whitelist_stage w (the (arg_whitelist_folders a)) collection
                 else Inr collection) of
             Inl e \<Rightarrow> Inl e
           | Inr collection1 \<Rightarrow>
               let collection2 =
                     (if given (arg_only_endpoints_type a)
                      then filter_by_endpoint_type collection1 (the (arg_only_endpoints_type a))
                      else collection1);
                   collection3 =
                     (if arg_remove_descriptions a then remove_descriptions collection2
                      else collection2)
               in write_postman_subset w collection3 (arg_output_file a)))"

text \<open>The \<^verbatim>\<open>except\<close> clauses of \<^verbatim>\<open>main\<close>, in their order, and the value it returns.\<close>

fun exit_code :: "error \<Rightarrow> int" where
  "exit_code FileNotFoundError = 2"
| "exit_code JSONDecodeError = 3"
| "exit_code KeyError = 3"
| "exit_code e = 1"

definition main :: "world \<Rightarrow> args \<Rightarrow> int" where
  "main w a = (case main_body w a of Inl e \<Rightarrow> exit_code e | Inr written \<Rightarrow> 0)"

section \<open>Properties the specification speaks about\<close>

text \<open>No dictionary at any depth has a key equal to \<^verbatim>\<open>description\<close>.\<close>

fun no_description :: "json \<Rightarrow> bool"
  and no_description_items :: "(string \<times> json) list \<Rightarrow> bool"
  and no_description_list :: "json list \<Rightarrow> bool"
where
  "no_description (JDict kvs) = no_description_items kvs"
| "no_description (JList xs) = no_description_list xs"
| "no_description v = True"
| "no_description_items [] = True"
| "no_description_items ((k, v) # rest) =
     (k \<noteq> ''description'' \<and> no_description v \<and> no_description_items rest)"
| "no_description_list [] = True"
| "no_description_list (x # xs) = (no_description x \<and> no_description_list xs)"

text \<open>
  The description stripper in the specification's words (section 4.1): a mapping yields
  a mapping that omits every key named \<^verbatim>\<open>description\<close> and keeps all other keys, in
  their order, with their values processed recursively; a sequence yields the sequence
  of its processed elements; a scalar is returned as it is.
\<close>

fun strip_descriptions :: "json \<Rightarrow> json"
  and strip_descriptions_items :: "(string \<times> json) list \<Rightarrow> (string \<times> json) list"
  and strip_descriptions_list :: "json list \<Rightarrow> json list"
where
  "strip_descriptions (JDict kvs) = JDict (strip_descriptions_items kvs)"
| "strip_descriptions (JList xs) = JList (strip_descriptions_list xs)"
| "strip_descriptions v = v"
| "strip_descriptions_items [] = []"
| "strip_descriptions_items ((k, v) # rest) =
     (if k = ''description'' then strip_descriptions_items rest
      else (k, strip_descriptions v) # strip_descriptions_items rest)"
| "strip_descriptions_list [] = []"
| "strip_descriptions_list (x # xs) = strip_descriptions x # strip_descriptions_list xs"

fun is_scalar :: "json \<Rightarrow> bool" where
  "is_scalar (JDict d) = False"
| "is_scalar (JList xs) = False"
| "is_scalar v = True"

text \<open>
  Every dictionary at any depth that has a \<^verbatim>\<open>request\<close> key bound to a dictionary with
  a \<^verbatim>\<open>method\<close> key has that method equal to \<open>m\<close>.
\<close>

fun requests_match :: "string \<Rightarrow> json \<Rightarrow> bool"
  and requests_match_items :: "string \<Rightarrow> (string \<times> json) list \<Rightarrow> bool"
  and requests_match_list :: "string \<Rightarrow> json list \<Rightarrow> bool"
where
  "requests_match m (JDict d) =
     ((is_request_item d \<longrightarrow> request_method d = JStr m) \<and> requests_match_items m d)"
| "requests_match m (JList xs) = requests_match_list m xs"
| "requests_match m v = True"
| "requests_match_items m [] = True"
| "requests_match_items m ((k, v) # rest) = (requests_match m v \<and> requests_match_items m rest)"
| "requests_match_list m [] = True"
| "requests_match_list m (x # xs) = (requests_match m x \<and> requests_match_list m xs)"

text \<open>Some dictionary at some depth, the value itself included, is a request with method \<open>m\<close>.\<close>

fun has_matching_request :: "string \<Rightarrow> json \<Rightarrow> bool"
  and has_matching_request_items :: "string \<Rightarrow> (string \<times> json) list \<Rightarrow> bool"
  and has_matching_request_list :: "string \<Rightarrow> json list \<Rightarrow> bool"
where
  "has_matching_request m (JDict d) =
     ((is_request_item d \<and> request_method d = JStr m) \<or> has_matching_request_items m d)"
| "has_matching_request m (JList xs) = has_matching_request_list m xs"
| "has_matching_request m v = False"
| "has_matching_request_items m [] = False"
| "has_matching_request_items m ((k, v) # rest) =
     (has_matching_request m v \<or> has_matching_request_items m rest)"
| "has_matching_request_list m [] = False"
| "has_matching_request_list m (x # xs) =
     (has_matching_request m x \<or> has_matching_request_list m xs)"

text \<open>
  The Item of the specification's data model (section 3): a Request, that is a
  dictionary with a \<^verbatim>\<open>request\<close> dictionary holding a \<^verbatim>\<open>method\<close>, or a Folder, that is
  a dictionary whose \<^verbatim>\<open>item\<close> key holds a sequence of Items. \<open>folder_shaped\<close> walks to
  the \<^verbatim>\<open>item\<close> entry of the dictionary.
\<close>

fun item_shaped :: "json \<Rightarrow> bool"
  and folder_shaped :: "(string \<times> json) list \<Rightarrow> bool"
  and items_shaped :: "json list \<Rightarrow> bool"
where
  "item_shaped (JDict d) = (is_request_item d \<or> folder_shaped d)"
| "item_shaped v = False"
| "folder_shaped [] = False"
| "folder_shaped ((k, v) # rest) =
     (if k = ''item'' then (case v of JList xs \<Rightarrow> items_shaped xs | _ \<Rightarrow> False)
      else folder_shaped rest)"
| "items_shaped [] = True"
| "items_shaped (x # xs) = (item_shaped x \<and> items_shaped xs)"

text \<open>Every list at any depth, the value itself included, is non-empty.\<close>

fun no_empty_list :: "json \<Rightarrow> bool"
  and no_empty_list_items :: "(string \<times> json) list \<Rightarrow> bool"
  and no_empty_list_list :: "json list \<Rightarrow> bool"
where
  "no_empty_list (JDict d) = no_empty_list_items d"
| "no_empty_list (JList xs) = (xs \<noteq> [] \<and> no_empty_list_list xs)"
| "no_empty_list v = True"
| "no_empty_list_items [] = True"
| "no_empty_list_items ((k, v) # rest) = (no_empty_list v \<and> no_empty_list_items rest)"
| "no_empty_list_list [] = True"
| "no_empty_list_list (x # xs) = (no_empty_list x \<and> no_empty_list_list xs)"

text \<open>
  For the whitelist filter: a value is a dictionary; the value \<^verbatim>\<open>item.get('name')\<close> of a
  dictionary (\<^verbatim>\<open>None\<close> when it has no \<^verbatim>\<open>name\<close> key); a dictionary without a
  \<^verbatim>\<open>name\<close> key.
\<close>

fun is_dict :: "json \<Rightarrow> bool" where
  "is_dict (JDict d) = True"
| "is_dict v = False"

fun item_name :: "json \<Rightarrow> json" where
  "item_name (JDict d) = dict_get d ''name'' JNone"
| "item_name v = JNone"

fun lacks_name :: "json \<Rightarrow> bool" where
  "lacks_name (JDict d) = (\<not> has_key d ''name'')"
| "lacks_name v = False"

section \<open>An example environment\<close>

text \<open>
  A file system with a collection, a whitelist file that is not JSON, one without the
  \<^verbatim>\<open>folders\<close> key and a valid one; every other path is missing. The texts of the files
  are abbreviated to one letter, and \<open>json_load\<close> gives what each decodes to.
\<close>

definition example_world :: world where
  "example_world =
     \<lparr> files = (\<lambda>p. if p = ''collection.json'' then Readable ''C''
                     else if p = ''broken.json'' then Readable ''B''
                     else if p = ''nokey.json'' then Readable ''N''
                     else if p = ''folders.json'' then Readable ''F''
                     else Missing),
       json_load = (\<lambda>s. if s = ''C''
                         then Some (JDict [(''item'', JList [JDict [(''name'', JStr ''X'')]])])
                     else if s = ''N'' then Some (JDict [(''other'', JList [])])
                     else if s = ''F'' then Some (JDict [(''folders'', JList [JStr ''X''])])
                     else None),
       open_write = (\<lambda>p. None) \<rparr>"

definition example_args :: "string \<Rightarrow> args" where
  "example_args whitelist_path =
     \<lparr> arg_input_file = ''collection.json'', arg_output_file = ''out.json'',
       arg_remove_descriptions = False, arg_only_endpoints_type = None,
       arg_whitelist_folders = Some whitelist_path \<rparr>"

section \<open>The same functions on a store of objects\<close>

text \<open>
  Whether a function changes its argument cannot be read off a function from values to
  values, so the three filters are given a second time on an explicit store. A
  dictionary or a list is an object in the store and is handled through its address; the
  other values are immediate. The store is the list of the objects allocated so far, an
  address is an index into it, and a new object gets the next index. Every step that
  creates or changes an object in the source does so here: \<^verbatim>\<open>result = {}\<close> and the
  start of a list comprehension allocate an empty object, \<^verbatim>\<open>result[key] = v\<close> and each
  element a comprehension keeps update that object in place.

  The recursion follows references, which in a store may form a cycle, so each function
  takes a bound \<open>n\<close> on the depth of calls and returns \<open>None\<close> when the bound is
  reached (or a reference points outside the store, which Python rules out).
\<close>

type_synonym addr = nat

datatype pyval = VNone | VBool bool | VInt int | VFloat pyfloat | VStr string | VRef addr

datatype obj = ODict "(string \<times> pyval) list" | OList "pyval list"

type_synonym heap = "obj list"

text \<open>\<^verbatim>\<open>result[key] = v\<close> and \<^verbatim>\<open>result.append(v)\<close> on the object at address \<open>r\<close>.\<close>

definition dict_store :: "heap \<Rightarrow> addr \<Rightarrow> string \<Rightarrow> pyval \<Rightarrow> heap" where
  "dict_store h r key v =
     (case h ! r of ODict kvs \<Rightarrow> h[r := ODict (AList.update key v kvs)] | OList xs \<Rightarrow> h)"

definition list_append :: "heap \<Rightarrow> addr \<Rightarrow> pyval \<Rightarrow> heap" where
  "list_append h r v =
     (case h ! r of OList xs \<Rightarrow> h[r := OList (xs @ [v])] | ODict kvs \<Rightarrow> h)"

text \<open>
  The JSON tree a value stands for in a store, read to depth \<open>k\<close>. It is \<open>None\<close>
  when the structure is deeper than \<open>k\<close>, in particular when it is cyclic.
\<close>

fun h_abs :: "nat \<Rightarrow> heap \<Rightarrow> pyval \<Rightarrow> json option"
  and h_abs_items :: "nat \<Rightarrow> heap \<Rightarrow> (string \<times> pyval) list \<Rightarrow> (string \<times> json) list option"
  and h_abs_list :: "nat \<Rightarrow> heap \<Rightarrow> pyval list \<Rightarrow> json list option"
where
  "h_abs 0 h v = None"
| "h_abs (Suc k) h VNone = Some JNone"
| "h_abs (Suc k) h (VBool b) = Some (JBool b)"
| "h_abs (Suc k) h (VInt i) = Some (JInt i)"
| "h_abs (Suc k) h (VFloat f) = Some (JFloat f)"
| "h_abs (Suc k) h (VStr s) = Some (JStr s)"
| "h_abs (Suc k) h (VRef a) =
     (if a < length h
      then (case h ! a of
              ODict kvs \<Rightarrow> map_option JDict (h_abs_items k h kvs)
            | OList xs \<Rightarrow> map_option JList (h_abs_list k h xs))
      else None)"
| "h_abs_items k h [] = Some []"
| "h_abs_items k h ((key, v) # rest) =
     (case h_abs k h v of
        None \<Rightarrow> None
      | Some t \<Rightarrow>
          (case h_abs_items k h rest of None \<Rightarrow> None | Some ts \<Rightarrow> Some ((key, t) # ts)))"
| "h_abs_list k h [] = Some []"
| "h_abs_list k h (x # xs) =
     (case h_abs k h x of
        None \<Rightarrow> None
      | Some t \<Rightarrow> (case h_abs_list k h xs of None \<Rightarrow> None | Some ts \<Rightarrow> Some (t # ts)))"

text \<open>
  The store \<open>h'\<close> has every object of \<open>h\<close> at its address, unchanged, and possibly
  new objects after them.
\<close>

definition extends :: "heap \<Rightarrow> heap \<Rightarrow> bool" where
  "extends h h' = (take (length h) h' = h)"

text \<open>\<^verbatim>\<open>remove_descriptions\<close> on the store; \<open>result\<close> is the address of the new object.\<close>

function (sequential) h_remove_descriptions :: "nat \<Rightarrow> heap \<Rightarrow> pyval \<Rightarrow> (pyval \<times> heap) option"
  and h_remove_descriptions_items ::
    "nat \<Rightarrow> heap \<Rightarrow> addr \<Rightarrow> (string \<times> pyval) list \<Rightarrow> heap option"
  and h_remove_descriptions_list :: "nat \<Rightarrow> heap \<Rightarrow> addr \<Rightarrow> pyval list \<Rightarrow> heap option"
where
  "h_remove_descriptions 0 h data = None"
| "h_remove_descriptions (Suc n) h (VRef a) =
     (if a < length h
      then (case h ! a of
              ODict kvs \<Rightarrow>
                (case h_remove_descriptions_items n (h @ [ODict []]) (length h) kvs of
                   None \<Rightarrow> None
                 | Some h' \<Rightarrow> Some (VRef (length h), h'))
            | OList xs \<Rightarrow>
                (case h_remove_descriptions_list n (h @ [OList []]) (length h) xs of
                   None \<Rightarrow> None
                 | Some h' \<Rightarrow> Some (VRef (length h), h')))
      else None)"
| "h_remove_descriptions (Suc n) h data = Some (data, h)"
| "h_remove_descriptions_items n h result [] = Some h"
| "h_remove_descriptions_items n h result ((key, val) # rest) =
     (if key = ''description'' then h_remove_descriptions_items n h result rest
      else (case h_remove_descriptions n h val of
              None \<Rightarrow> None
            | Some (v, h') \<Rightarrow>
                h_remove_descriptions_items n (dict_store h' result key v) result rest))"
| "h_remove_descriptions_list n h result [] = Some h"
| "h_remove_descriptions_list n h result (x # xs) =
     (case h_remove_descriptions n h x of
        None \<Rightarrow> None
      | Some (v, h') \<Rightarrow> h_remove_descriptions_list n (list_append h' result v) result xs)"
  by pat_completeness auto
termination
  by (relation "measures
        [case_sum (\<lambda>(n, h, data). n)
           (case_sum (\<lambda>(n, h, r, kvs). n) (\<lambda>(n, h, r, xs). n)),
         case_sum (\<lambda>(n, h, data). 0)
           (case_sum (\<lambda>(n, h, r, kvs). Suc (length kvs)) (\<lambda>(n, h, r, xs). Suc (length xs)))]")
    auto

text \<open>
  \<^verbatim>\<open>filter_by_endpoint_type\<close> on the store. The truth value of a reference is that of
  the object it points to. The empty list that \<^verbatim>\<open>result.get('item', [])\<close> creates as
  its default is only tested and dropped; it is falsy and is not allocated here.
\<close>

fun h_truthy :: "heap \<Rightarrow> pyval \<Rightarrow> bool" where
  "h_truthy h VNone = False"
| "h_truthy h (VBool b) = b"
| "h_truthy h (VInt i) = (i \<noteq> 0)"
| "h_truthy h (VFloat f) = (f \<noteq> FFinite 0 \<and> f \<noteq> FNegZero)"
| "h_truthy h (VStr s) = (s \<noteq> [])"
| "h_truthy h (VRef a) = (case h ! a of ODict kvs \<Rightarrow> kvs \<noteq> [] | OList xs \<Rightarrow> xs \<noteq> [])"

definition dict_at :: "heap \<Rightarrow> addr \<Rightarrow> (string \<times> pyval) list" where
  "dict_at h a = (case h ! a of ODict kvs \<Rightarrow> kvs | OList xs \<Rightarrow> [])"

definition h_is_request_item :: "heap \<Rightarrow> (string \<times> pyval) list \<Rightarrow> bool" where
  "h_is_request_item h d =
     (has_key d ''request'' \<and>
      (case dict_get d ''request'' VNone of
         VRef b \<Rightarrow> b < length h \<and>
           (case h ! b of ODict r \<Rightarrow> has_key r ''method'' | OList xs \<Rightarrow> False)
       | _ \<Rightarrow> False))"

definition h_request_method :: "heap \<Rightarrow> (string \<times> pyval) list \<Rightarrow> pyval" where
  "h_request_method h d =
     (case dict_get d ''request'' VNone of
        VRef b \<Rightarrow> dict_get (dict_at h b) ''method'' VNone
      | _ \<Rightarrow> VNone)"

text \<open>
  The two tests of the dictionary branch and the one of the list branch:
  \<^verbatim>\<open>data['request']['method'] != endpoint_type\<close> under its guard; the value returned
  after the loop, \<^verbatim>\<open>None\<close> when \<^verbatim>\<open>'item' in data and not result.get('item', [])\<close> and
  else \<^verbatim>\<open>result\<close>; and \<^verbatim>\<open>filtered_list if filtered_list else None\<close>.
\<close>

definition h_excluded :: "heap \<Rightarrow> (string \<times> pyval) list \<Rightarrow> string \<Rightarrow> bool" where
  "h_excluded h d endpoint_type =
     (h_is_request_item h d \<and> h_request_method h d \<noteq> VStr endpoint_type)"

definition h_dict_result :: "heap \<Rightarrow> addr \<Rightarrow> (string \<times> pyval) list \<Rightarrow> pyval" where
  "h_dict_result h result d =
     (if has_key d ''item'' \<and>
         \<not> (has_key (dict_at h result) ''item'' \<and>
            h_truthy h (dict_get (dict_at h result) ''item'' VNone))
      then VNone else VRef result)"

definition h_list_result :: "heap \<Rightarrow> addr \<Rightarrow> pyval" where
  "h_list_result h filtered_list =
     (if h_truthy h (VRef filtered_list) then VRef filtered_list else VNone)"

function (sequential) h_filter_by_endpoint_type :: "nat \<Rightarrow> heap \<Rightarrow> pyval \<Rightarrow> string \<Rightarrow> (pyval \<times> heap) option"
  and h_filter_by_endpoint_type_items ::
    "nat \<Rightarrow> heap \<Rightarrow> addr \<Rightarrow> (string \<times> pyval) list \<Rightarrow> string \<Rightarrow> heap option"
  and h_filter_by_endpoint_type_list ::
    "nat \<Rightarrow> heap \<Rightarrow> addr \<Rightarrow> pyval list \<Rightarrow> string \<Rightarrow> heap option"
where
  "h_filter_by_endpoint_type 0 h data endpoint_type = None"
| "h_filter_by_endpoint_type (Suc n) h (VRef a) endpoint_type =
     (if a < length h
      then (case h ! a of
              ODict d \<Rightarrow>
                (if h_excluded h d endpoint_type then Some (VNone, h)
                 else
                   (case h_filter_by_endpoint_type_items n (h @ [ODict []]) (length h) d
                           endpoint_type of
                      None \<Rightarrow> None
                    | Some h' \<Rightarrow> Some (h_dict_result h' (length h) d, h')))
            | OList xs \<Rightarrow>
                (case h_filter_by_endpoint_type_list n (h @ [OList []]) (length h) xs
                        endpoint_type of
                   None \<Rightarrow> None
                 | Some h' \<Rightarrow> Some (h_list_result h' (length h), h')))
      else None)"
| "h_filter_by_endpoint_type (Suc n) h data endpoint_type = Some (data, h)"
| "h_filter_by_endpoint_type_items n h result [] endpoint_type = Some h"
| "h_filter_by_endpoint_type_items n h result ((key, val) # rest) endpoint_type =
     (case h_filter_by_endpoint_type n h val endpoint_type of
        None \<Rightarrow> None
      | Some (filtered_value, h') \<Rightarrow>
          h_filter_by_endpoint_type_items n
            (if filtered_value \<noteq> VNone then dict_store h' result key filtered_value else h')
            result rest endpoint_type)"
| "h_filter_by_endpoint_type_list n h result [] endpoint_type = Some h"
| "h_filter_by_endpoint_type_list n h result (x # xs) endpoint_type =
     (case h_filter_by_endpoint_type n h x endpoint_type of
        None \<Rightarrow> None
      | Some (filtered_item, h') \<Rightarrow>
          h_filter_by_endpoint_type_list n
            (if filtered_item \<noteq> VNone then list_append h' result filtered_item else h')
            result xs endpoint_type)"
  by pat_completeness auto
termination
  by (relation "measures
        [case_sum (\<lambda>(n, h, data, e). n)
           (case_sum (\<lambda>(n, h, r, kvs, e). n) (\<lambda>(n, h, r, xs, e). n)),
         case_sum (\<lambda>(n, h, data, e). 0)
           (case_sum (\<lambda>(n, h, r, kvs, e). Suc (length kvs)) (\<lambda>(n, h, r, xs, e). Suc (length xs)))]")
    auto

text \<open>
  \<^verbatim>\<open>filter_by_whitelist_folders\<close> on the store. The membership test compares the trees
  the two values stand for and changes nothing; a raised exception leaves the store as
  it is at that moment, with the half-built list in it and \<^verbatim>\<open>data\<close> untouched. After
  the comprehension, \<^verbatim>\<open>data['item'] = ...\<close> stores the address of the new list in the
  object \<^verbatim>\<open>data\<close> itself, and \<^verbatim>\<open>data\<close> is returned.
\<close>

fun h_iter_values :: "heap \<Rightarrow> pyval \<Rightarrow> error + pyval list" where
  "h_iter_values h (VRef b) =
     (case h ! b of OList xs \<Rightarrow> Inr xs | ODict d \<Rightarrow> Inr (map (\<lambda>kv. VStr (fst kv)) d))"
| "h_iter_values h (VStr s) = Inr (map (\<lambda>c. VStr [c]) s)"
| "h_iter_values h v = Inl TypeError"

fun h_item_get_name :: "heap \<Rightarrow> pyval \<Rightarrow> error + pyval" where
  "h_item_get_name h (VRef c) =
     (case h ! c of ODict d \<Rightarrow> Inr (dict_get d ''name'' VNone) | OList xs \<Rightarrow> Inl AttributeError)"
| "h_item_get_name h v = Inl AttributeError"

definition h_py_in :: "nat \<Rightarrow> heap \<Rightarrow> pyval \<Rightarrow> pyval \<Rightarrow> (error + bool) option" where
  "h_py_in k h x c =
     (case h_abs k h x of
        None \<Rightarrow> None
      | Some tx \<Rightarrow> (case h_abs k h c of None \<Rightarrow> None | Some tc \<Rightarrow> Some (py_in tx tc)))"

fun h_whitelist_comprehension ::
  "nat \<Rightarrow> heap \<Rightarrow> addr \<Rightarrow> pyval list \<Rightarrow> pyval \<Rightarrow> (error option \<times> heap) option"
where
  "h_whitelist_comprehension k h result [] whitelist_folders = Some (None, h)"
| "h_whitelist_comprehension k h result (item # rest) whitelist_folders =
     (case h_item_get_name h item of
        Inl e \<Rightarrow> Some (Some e, h)
      | Inr n \<Rightarrow>
          (case h_py_in k h n whitelist_folders of
             None \<Rightarrow> None
           | Some (Inl e) \<Rightarrow> Some (Some e, h)
           | Some (Inr keep) \<Rightarrow>
               h_whitelist_comprehension k (if keep then list_append h result item else h)
                 result rest whitelist_folders))"

fun h_filter_by_whitelist_folders ::
  "nat \<Rightarrow> heap \<Rightarrow> pyval \<Rightarrow> pyval \<Rightarrow> ((error + pyval) \<times> heap) option"
where
  "h_filter_by_whitelist_folders k h (VRef a) whitelist_folders =
     (if a < length h
      then (case h ! a of
              OList xs \<Rightarrow> Some (Inr (VRef a), h)
            | ODict d \<Rightarrow>
                if \<not> has_key d ''item'' then Some (Inr (VRef a), h)
                else
                  (case h_iter_values h (dict_get d ''item'' VNone) of
                     Inl e \<Rightarrow> Some (Inl e, h)
                   | Inr items \<Rightarrow>
                       (case h_whitelist_comprehension k (h @ [OList []]) (length h) items
                               whitelist_folders of
                          None \<Rightarrow> None
                        | Some (Some e, h') \<Rightarrow> Some (Inl e, h')
                        | Some (None, h') \<Rightarrow>
                            Some (Inr (VRef a), dict_store h' a ''item'' (VRef (length h))))))
      else None)"
| "h_filter_by_whitelist_folders k h data whitelist_folders = Some (Inr data, h)"

text \<open>
  The store \<open>g\<close> has the objects of \<open>h\<close> at the addresses from \<open>lo\<close> up to, not
  including, \<open>hi\<close>.
\<close>

definition agrees :: "nat \<Rightarrow> nat \<Rightarrow> heap \<Rightarrow> heap \<Rightarrow> bool" where
  "agrees lo hi h g = (hi \<le> length g \<and> (\<forall>a. lo \<le> a \<and> a < hi \<longrightarrow> g ! a = h ! a))"

text \<open>
  What the store versions are proved to do at depth \<open>k\<close>, in the form the induction
  on \<open>k\<close> needs: started in any store \<open>h\<close> that extends a store \<open>h0\<close> in which
  the argument stands for the tree \<open>t\<close>, the call returns, and the value it returns
  stands for the result of the function on trees in every store that has the objects the
  call allocated.
\<close>

definition refines_remove_descriptions :: "nat \<Rightarrow> bool" where
  "refines_remove_descriptions k =
     (\<forall>h0 h v t. h_abs k h0 v = Some t \<longrightarrow> extends h0 h \<longrightarrow>
        (\<exists>v' h'. h_remove_descriptions k h v = Some (v', h') \<and>
           (\<forall>g. agrees (length h) (length h') h' g \<longrightarrow>
              h_abs k g v' = Some (remove_descriptions t))))"

definition refines_filter_by_endpoint_type :: "nat \<Rightarrow> string \<Rightarrow> bool" where
  "refines_filter_by_endpoint_type k m =
     (\<forall>h0 h v t. h_abs k h0 v = Some t \<longrightarrow> extends h0 h \<longrightarrow>
        (\<exists>v' h'. h_filter_by_endpoint_type k h v m = Some (v', h') \<and>
           (\<forall>g. agrees (length h) (length h') h' g \<longrightarrow>
              h_abs k g v' = Some (filter_by_endpoint_type t m))))"

text \<open>
  An example store: a collection with a description and one folder X, at addresses 0
  to 2, and the whitelist \<^verbatim>\<open>["X"]\<close> at address 3.
\<close>

definition example_heap :: heap where
  "example_heap =
     [ODict [(''description'', VStr ''d''), (''item'', VRef 1)],
      OList [VRef 2],
      ODict [(''name'', VStr ''X'')],
      OList [VStr ''X'']]"

section \<open>Association lists as dictionaries\<close>

lemma update_fresh: "k \<notin> fst ` set al \<Longrightarrow> AList.update k v al = al @ [(k, v)]"
  by (induction al) auto

lemma set_update_subset: "set (AList.update k v al) \<subseteq> insert (k, v) (set al)"
  by (induction al) auto

lemma keys_update_distinct: "distinct (map fst al) \<Longrightarrow> distinct (map fst (AList.update k v al))"
  by (simp add: distinct_update)

lemma keys_distinct_items_iff:
  "keys_distinct_items kvs = (\<forall>kv \<in> set kvs. keys_distinct (snd kv))"
  by (induction kvs) auto

lemma keys_distinct_list_iff:
  "keys_distinct_list xs = (\<forall>x \<in> set xs. keys_distinct x)"
  by (induction xs) auto

lemma json_values_induct [case_names JNone JBool JInt JFloat JStr JList JDict]:
  assumes "P JNone" "\<And>b. P (JBool b)" "\<And>i. P (JInt i)" "\<And>f. P (JFloat f)" "\<And>s. P (JStr s)"
    and "\<And>xs. (\<And>x. x \<in> set xs \<Longrightarrow> P x) \<Longrightarrow> P (JList xs)"
    and "\<And>d. (\<And>k v. (k, v) \<in> set d \<Longrightarrow> P v) \<Longrightarrow> P (JDict d)"
  shows "P t"
proof (induction t)
  case (JDict d)
  show ?case
  proof (rule assms(7))
    fix k v assume "(k, v) \<in> set d"
    then show "P v" using JDict[of "(k, v)" v] by simp
  qed
qed (auto intro: assms)

section \<open>The description stripper\<close>

lemma rd_items_distinct:
  "distinct (map fst kvs) \<Longrightarrow> fst ` set kvs \<inter> fst ` set acc = {} \<Longrightarrow>
   remove_descriptions_items kvs acc =
     acc @ map (\<lambda>(k, v). (k, remove_descriptions v))
             (filter (\<lambda>(k, v). k \<noteq> ''description'') kvs)"
proof (induction kvs arbitrary: acc)
  case Nil
  then show ?case by simp
next
  case (Cons p kvs)
  obtain k v where p: "p = (k, v)" by (cases p)
  show ?case
  proof (cases "k = ''description''")
    case True
    with Cons p show ?thesis by auto
  next
    case False
    have fresh: "k \<notin> fst ` set acc" using Cons.prems p by auto
    have "fst ` set kvs \<inter> fst ` set (acc @ [(k, remove_descriptions v)]) = {}"
      using Cons.prems p by auto
    with Cons p False fresh show ?thesis
      by (simp add: update_fresh)
  qed
qed

lemma no_description_items_iff:
  "no_description_items kvs = (\<forall>(k, v) \<in> set kvs. k \<noteq> ''description'' \<and> no_description v)"
  by (induction kvs) auto

lemma rd_no_description:
  "no_description (remove_descriptions t)"
  "no_description_items acc \<Longrightarrow> no_description_items (remove_descriptions_items kvs acc)"
  "no_description_list (remove_descriptions_list xs)"
proof (induction t and kvs acc and xs
    rule: remove_descriptions_remove_descriptions_items_remove_descriptions_list.induct)
  case (5 key val rest result)
  show ?case
  proof (cases "key = ''description''")
    case True
    with 5 show ?thesis by simp
  next
    case False
    have "no_description_items (AList.update key (remove_descriptions val) result)"
      using set_update_subset[of key "remove_descriptions val" result]
        "5.IH"(2)[OF False] "5.prems" False
      by (auto simp: no_description_items_iff)
    with 5 False show ?thesis by simp
  qed
qed simp_all

lemma rd_list_map: "remove_descriptions_list xs = map remove_descriptions xs"
  by (induction xs) auto

lemma rd_items_keys_distinct:
  "distinct (map fst acc) \<Longrightarrow> distinct (map fst (remove_descriptions_items kvs acc))"
  by (induction kvs arbitrary: acc) (auto simp: keys_update_distinct)

lemma rd_items_fixed_vals:
  "\<forall>(k, v) \<in> set kvs. remove_descriptions (remove_descriptions v) = remove_descriptions v \<Longrightarrow>
   \<forall>(k, v) \<in> set acc. remove_descriptions v = v \<Longrightarrow>
   \<forall>(k, v) \<in> set (remove_descriptions_items kvs acc). remove_descriptions v = v"
proof (induction kvs arbitrary: acc)
  case Nil
  then show ?case by simp
next
  case (Cons p kvs)
  obtain k v where p: "p = (k, v)" by (cases p)
  have *: "\<forall>(k, v) \<in> set (AList.update k (remove_descriptions v) acc). remove_descriptions v = v"
    using set_update_subset[of k "remove_descriptions v" acc] Cons.prems p by auto
  show ?case using Cons p * by auto
qed

lemma rd_items_id:
  assumes "distinct (map fst r)" "no_description_items r"
    "\<forall>(k, v) \<in> set r. remove_descriptions v = v"
  shows "remove_descriptions_items r [] = r"
proof -
  have "remove_descriptions_items r [] =
      map (\<lambda>(k, v). (k, remove_descriptions v)) (filter (\<lambda>(k, v). k \<noteq> ''description'') r)"
    using rd_items_distinct[of r "[]"] assms(1) by simp
  also have "filter (\<lambda>(k, v). k \<noteq> ''description'') r = r"
    using assms(2) by (auto simp: no_description_items_iff intro!: filter_True)
  also have "map (\<lambda>(k, v). (k, remove_descriptions v)) r = r"
    using assms(3) by (auto intro!: map_idI)
  finally show ?thesis .
qed

text \<open>
  Claim C3. The description stripper is idempotent: for every value \<open>t\<close>,
  \<^verbatim>\<open>remove_descriptions(remove_descriptions(t))\<close> equals \<^verbatim>\<open>remove_descriptions(t)\<close>.
  The statement holds for every association list, with or without repeated keys.
\<close>

theorem remove_descriptions_idempotent:
  "remove_descriptions (remove_descriptions t) = remove_descriptions t"
proof (induction t)
  case (JDict kvs)
  let ?r = "remove_descriptions_items kvs []"
  have "distinct (map fst ?r)" by (simp add: rd_items_keys_distinct)
  moreover have "no_description_items ?r" by (simp add: rd_no_description(2))
  moreover have "\<forall>(k, v) \<in> set ?r. remove_descriptions v = v"
    using rd_items_fixed_vals[of kvs "[]"] JDict by fastforce
  ultimately show ?case by (simp add: rd_items_id)
next
  case (JList xs)
  then show ?case by (simp add: rd_list_map map_idI)
qed simp_all

lemma strip_items_eq:
  "strip_descriptions_items kvs =
     map (\<lambda>(k, v). (k, strip_descriptions v)) (filter (\<lambda>(k, v). k \<noteq> ''description'') kvs)"
  by (induction kvs) auto

lemma strip_list_map: "strip_descriptions_list xs = map strip_descriptions xs"
  by (induction xs) auto

lemma rd_eq_strip: "keys_distinct t \<Longrightarrow> remove_descriptions t = strip_descriptions t"
proof (induction t rule: json_values_induct)
  case (JDict kvs)
  have d: "distinct (map fst kvs)" and kd: "\<forall>kv \<in> set kvs. keys_distinct (snd kv)"
    using JDict.prems by (simp_all add: keys_distinct_items_iff)
  have vals: "\<forall>kv \<in> set kvs. remove_descriptions (snd kv) = strip_descriptions (snd kv)"
  proof
    fix kv assume "kv \<in> set kvs"
    then show "remove_descriptions (snd kv) = strip_descriptions (snd kv)"
      using JDict.IH[of "fst kv" "snd kv"] kd by auto
  qed
  have "remove_descriptions_items kvs [] =
      map (\<lambda>(k, v). (k, remove_descriptions v)) (filter (\<lambda>(k, v). k \<noteq> ''description'') kvs)"
    using rd_items_distinct[of kvs "[]"] d by simp
  also have "\<dots> = map (\<lambda>(k, v). (k, strip_descriptions v)) (filter (\<lambda>(k, v). k \<noteq> ''description'') kvs)"
    using vals by (auto intro!: map_cong)
  finally show ?case by (simp add: strip_items_eq)
next
  case (JList xs)
  then show ?case
    by (auto simp: rd_list_map strip_list_map keys_distinct_list_iff)
qed simp_all

lemma strip_id:
  "no_description t \<Longrightarrow> strip_descriptions t = t"
  "no_description_items kvs \<Longrightarrow> strip_descriptions_items kvs = kvs"
  "no_description_list xs \<Longrightarrow> strip_descriptions_list xs = xs"
  by (induction t and kvs and xs
      rule: strip_descriptions_strip_descriptions_items_strip_descriptions_list.induct) auto

text \<open>
  Claim C2. For every JSON tree, the result of \<^verbatim>\<open>remove_descriptions\<close> contains no
  mapping at any depth with a key equal to \<^verbatim>\<open>description\<close>; all other keys and their
  values are unchanged in value and relative order, that is, the result is the tree the
  specification's stripper describes (and the tree itself when it holds no such key);
  a scalar given at the top level is returned unchanged.
\<close>

theorem remove_descriptions_strips:
  "no_description (remove_descriptions t) \<and>
   (keys_distinct t \<longrightarrow> remove_descriptions t = strip_descriptions t) \<and>
   (keys_distinct t \<and> no_description t \<longrightarrow> remove_descriptions t = t) \<and>
   (is_scalar t \<longrightarrow> remove_descriptions t = t)"
proof -
  have "is_scalar t \<Longrightarrow> remove_descriptions t = t" by (cases t) simp_all
  then show ?thesis
    using rd_no_description(1)[of t] rd_eq_strip[of t] strip_id(1)[of t] by auto
qed

theorem remove_descriptions_strips_witness:
  "keys_distinct (JDict [(''a'', JDict [(''description'', JStr ''d''), (''b'', JInt 1)])]) \<and>
   remove_descriptions (JDict [(''a'', JDict [(''description'', JStr ''d''), (''b'', JInt 1)])])
     = JDict [(''a'', JDict [(''b'', JInt 1)])] \<and>
   no_description (JDict [(''a'', JDict [(''b'', JInt 1)])]) \<and>
   is_scalar (JStr ''description'') \<and>
   remove_descriptions (JStr ''description'') = JStr ''description''"
  using remove_descriptions_strips[of "JDict [(''a'', JDict [(''description'', JStr ''d''), (''b'', JInt 1)])]"]
    remove_descriptions_strips[of "JStr ''description''"]
  by simp

section \<open>The endpoint-type filter\<close>

lemma fbe_list_eq:
  "filter_by_endpoint_type_list xs m =
     filter (\<lambda>y. y \<noteq> JNone) (map (\<lambda>x. filter_by_endpoint_type x m) xs)"
  by (induction xs) (auto simp: Let_def)

lemma fbe_items_distinct:
  "distinct (map fst d) \<Longrightarrow> fst ` set d \<inter> fst ` set acc = {} \<Longrightarrow>
   filter_by_endpoint_type_items d m acc =
     acc @ filter (\<lambda>kv. snd kv \<noteq> JNone)
             (map (\<lambda>kv. (fst kv, filter_by_endpoint_type (snd kv) m)) d)"
proof (induction d arbitrary: acc)
  case Nil
  then show ?case by simp
next
  case (Cons p d)
  obtain k v where p: "p = (k, v)" by (cases p)
  show ?case
  proof (cases "filter_by_endpoint_type v m = JNone")
    case True
    with Cons p show ?thesis by auto
  next
    case False
    have fresh: "k \<notin> fst ` set acc" using Cons.prems p by auto
    have "fst ` set d \<inter> fst ` set (acc @ [(k, filter_by_endpoint_type v m)]) = {}"
      using Cons.prems p by auto
    with Cons p False fresh show ?thesis
      by (simp add: update_fresh Let_def)
  qed
qed

lemma map_of_filtered:
  "distinct (map fst d) \<Longrightarrow>
   map_of (filter (\<lambda>kv. snd kv \<noteq> JNone) (map (\<lambda>kv. (fst kv, f (snd kv))) d)) k =
     (case map_of d k of None \<Rightarrow> None
      | Some v \<Rightarrow> if f v = JNone then None else Some (f v))"
proof (induction d)
  case Nil
  then show ?case by simp
next
  case (Cons p d)
  obtain k' v' where p: "p = (k', v')" by (cases p)
  have notin: "k' \<notin> fst ` set d" using Cons.prems p by auto
  have "map_of d k' = None" using notin by (simp add: map_of_eq_None_iff)
  with Cons p show ?case by auto
qed

lemma fbe_items_lookup:
  assumes "distinct (map fst d)"
  shows "map_of (filter_by_endpoint_type_items d m []) k =
     (case map_of d k of None \<Rightarrow> None
      | Some v \<Rightarrow> if filter_by_endpoint_type v m = JNone then None
                  else Some (filter_by_endpoint_type v m))"
  using assms fbe_items_distinct[of d "[]" m]
    map_of_filtered[of d "\<lambda>v. filter_by_endpoint_type v m" k]
  by simp

lemma fbe_is_dict:
  "filter_by_endpoint_type v m = JDict r \<Longrightarrow>
   \<exists>d. v = JDict d \<and> r = filter_by_endpoint_type_items d m [] \<and>
       \<not> (is_request_item d \<and> request_method d \<noteq> JStr m) \<and>
       \<not> (has_key d ''item'' \<and> \<not> truthy (dict_get r ''item'' (JList [])))"
  by (cases v) (auto simp: Let_def split: if_splits)

lemma folder_absent:
  assumes "distinct (map fst d)" "map_of d ''item'' = Some v"
    "\<not> truthy (filter_by_endpoint_type v m)"
  shows "filter_by_endpoint_type (JDict d) m = JNone"
proof -
  let ?r = "filter_by_endpoint_type_items d m []"
  have "map_of ?r ''item'' =
      (if filter_by_endpoint_type v m = JNone then None else Some (filter_by_endpoint_type v m))"
    using fbe_items_lookup[OF assms(1), of m "''item''"] assms(2) by simp
  then have "\<not> truthy (dict_get ?r ''item'' (JList []))"
    using assms(3) by (auto simp: dict_get_def)
  moreover have "has_key d ''item''" using assms(2) by (simp add: has_key_def)
  ultimately show ?thesis by (simp add: Let_def)
qed

lemma requests_match_items_iff:
  "requests_match_items m d = (\<forall>kv \<in> set d. requests_match m (snd kv))"
  by (induction d) auto

lemma requests_match_list_iff:
  "requests_match_list m xs = (\<forall>x \<in> set xs. requests_match m x)"
  by (induction xs) auto

lemma request_survives:
  assumes dd: "distinct (map fst d)" and kd: "keys_distinct_items d"
    and req: "is_request_item (filter_by_endpoint_type_items d m [])"
  shows "is_request_item d \<and>
    request_method (filter_by_endpoint_type_items d m []) =
      filter_by_endpoint_type (request_method d) m"
proof -
  let ?r = "filter_by_endpoint_type_items d m []"
  from req obtain rr where rr: "map_of ?r ''request'' = Some (JDict rr)" "has_key rr ''method''"
    by (auto simp: is_request_item_def has_key_def dict_get_def split: json.splits option.splits)
  from rr(1) fbe_items_lookup[OF dd, of m "''request''"]
  obtain v where v: "map_of d ''request'' = Some v" "filter_by_endpoint_type v m = JDict rr"
    by (auto split: option.splits if_splits)
  from fbe_is_dict[OF v(2)] obtain dv where dv: "v = JDict dv"
    "rr = filter_by_endpoint_type_items dv m []" by auto
  have "(''request'', v) \<in> set d" using v(1) by (rule map_of_SomeD)
  then have "keys_distinct v" using kd by (auto simp: keys_distinct_items_iff)
  then have ddv: "distinct (map fst dv)" using dv(1) by simp
  from rr(2) obtain x where x: "map_of rr ''method'' = Some x" by (auto simp: has_key_def)
  from x fbe_items_lookup[OF ddv, of m "''method''"] dv(2)
  obtain y where y: "map_of dv ''method'' = Some y" "filter_by_endpoint_type y m = x"
    by (auto split: option.splits if_splits)
  have 1: "is_request_item d"
    using v(1) dv(1) y(1) by (simp add: is_request_item_def has_key_def dict_get_def)
  have 2: "request_method d = y"
    using v(1) dv(1) y(1) by (simp add: request_method_def dict_get_def)
  have 3: "request_method ?r = x"
    using rr(1) x by (simp add: request_method_def dict_get_def)
  from 1 2 3 y(2) show ?thesis by simp
qed

lemma fbe_requests_match:
  "keys_distinct t \<Longrightarrow> requests_match m (filter_by_endpoint_type t m)"
proof (induction t rule: json_values_induct)
  case (JDict d)
  let ?r = "filter_by_endpoint_type_items d m []"
  have dd: "distinct (map fst d)" and kd: "keys_distinct_items d"
    using JDict.prems by simp_all
  show ?case
  proof (cases "filter_by_endpoint_type (JDict d) m = JNone")
    case True
    then show ?thesis by simp
  next
    case False
    then have res: "filter_by_endpoint_type (JDict d) m = JDict ?r"
      and keep: "\<not> (is_request_item d \<and> request_method d \<noteq> JStr m)"
      by (auto simp: Let_def split: if_splits)
    have r: "?r = filter (\<lambda>kv. snd kv \<noteq> JNone)
             (map (\<lambda>kv. (fst kv, filter_by_endpoint_type (snd kv) m)) d)"
      using fbe_items_distinct[OF dd, of "[]" m] by simp
    have vals: "requests_match_items m ?r"
      unfolding requests_match_items_iff
    proof
      fix kv assume "kv \<in> set ?r"
      then obtain k v where "(k, v) \<in> set d" "snd kv = filter_by_endpoint_type v m"
        unfolding r by auto
      moreover have "keys_distinct v"
        using \<open>(k, v) \<in> set d\<close> kd by (auto simp: keys_distinct_items_iff)
      ultimately show "requests_match m (snd kv)" using JDict.IH by simp
    qed
    have "request_method ?r = JStr m" if "is_request_item ?r"
    proof -
      from request_survives[OF dd kd that] keep
      show ?thesis by simp
    qed
    with vals res show ?thesis by simp
  qed
next
  case (JList xs)
  then show ?case
    by (auto simp: Let_def fbe_list_eq requests_match_list_iff keys_distinct_list_iff)
qed simp_all

lemma absent_without_match_aux:
  "keys_distinct x \<Longrightarrow> item_shaped x \<Longrightarrow> \<not> has_matching_request m x \<Longrightarrow>
     filter_by_endpoint_type x m = JNone"
  "distinct (map fst d) \<Longrightarrow> keys_distinct_items d \<Longrightarrow> folder_shaped d \<Longrightarrow>
     \<not> has_matching_request_items m d \<Longrightarrow>
     \<exists>v. map_of d ''item'' = Some v \<and> filter_by_endpoint_type v m = JNone"
  "keys_distinct_list xs \<Longrightarrow> items_shaped xs \<Longrightarrow> \<not> has_matching_request_list m xs \<Longrightarrow>
     filter_by_endpoint_type_list xs m = []"
proof (induction x and d and xs rule: item_shaped_folder_shaped_items_shaped.induct)
  case (1 d)
  show ?case
  proof (cases "is_request_item d")
    case True
    with "1.prems" show ?thesis by auto
  next
    case False
    with "1.prems" have "folder_shaped d" by simp
    with "1.IH" "1.prems" obtain v where
      "map_of d ''item'' = Some v" "filter_by_endpoint_type v m = JNone"
      by auto
    then show ?thesis using folder_absent[of d v m] "1.prems" by simp
  qed
next
  case (4 k v rest)
  show ?case
  proof (cases "k = ''item''")
    case True
    with "4.prems" obtain xs where xs: "v = JList xs" "items_shaped xs"
      by (auto split: json.splits)
    have "filter_by_endpoint_type_list xs m = []"
      using "4.IH"(1)[OF True xs(1)] "4.prems" xs by simp
    with True xs show ?thesis by (simp add: Let_def)
  next
    case False
    with "4.IH"(2) "4.prems" show ?thesis by auto
  qed
qed (auto simp: Let_def)


lemma parent_item_list:
  assumes "distinct (map fst d)" "map_of d ''item'' = Some (JList xs)"
    "filter_by_endpoint_type (JDict d) m = JDict r"
  shows "map_of r ''item'' =
    Some (JList (filter (\<lambda>y. y \<noteq> JNone) (map (\<lambda>x. filter_by_endpoint_type x m) xs)))"
proof -
  from fbe_is_dict[OF assms(3)]
  have r: "r = filter_by_endpoint_type_items d m []"
    and keep: "\<not> (has_key d ''item'' \<and> \<not> truthy (dict_get r ''item'' (JList [])))"
    by auto
  have look: "map_of r ''item'' =
      (if filter_by_endpoint_type (JList xs) m = JNone then None
       else Some (filter_by_endpoint_type (JList xs) m))"
    unfolding r using fbe_items_lookup[OF assms(1), of m "''item''"] assms(2) by simp
  have "has_key d ''item''" using assms(2) by (simp add: has_key_def)
  with keep have "truthy (dict_get r ''item'' (JList []))" by simp
  then have "filter_by_endpoint_type (JList xs) m \<noteq> JNone"
    using look by (auto simp: dict_get_def)
  then have "filter_by_endpoint_type (JList xs) m = JList (filter_by_endpoint_type_list xs m)"
    by (auto simp: Let_def split: if_splits)
  with look show ?thesis by (simp add: fbe_list_eq)
qed

lemma single_request_absent:
  assumes "distinct (map fst d)" "map_of d ''item'' = Some (JList [JDict q])"
    "is_request_item q" "request_method q \<noteq> JStr m"
  shows "filter_by_endpoint_type (JDict d) m = JNone"
proof -
  have "filter_by_endpoint_type (JDict q) m = JNone" using assms(3,4) by simp
  then have "filter_by_endpoint_type (JList [JDict q]) m = JNone" by (simp add: Let_def)
  then have "\<not> truthy (filter_by_endpoint_type (JList [JDict q]) m)" by simp
  with assms(1,2) show ?thesis by (rule folder_absent)
qed

text \<open>
  Claim C1, as the code has it. For every JSON tree and every method string \<open>m\<close>, after
  \<^verbatim>\<open>filter_by_endpoint_type\<close>: every mapping remaining in the result that has a
  \<^verbatim>\<open>request\<close> key whose value is a mapping with a \<^verbatim>\<open>method\<close> key has that method equal
  to \<open>m\<close>; an item of the data model's shape (a Request, or a Folder whose \<^verbatim>\<open>item\<close>
  value is a sequence of such items) with no request of method \<open>m\<close> anywhere inside
  filters to \<^verbatim>\<open>None\<close>; the \<^verbatim>\<open>item\<close> sequence of a surviving parent holds exactly the
  results of its children that are not \<^verbatim>\<open>None\<close>, in their order; and a document whose
  single request does not match \<open>m\<close> filters to \<^verbatim>\<open>None\<close>.
\<close>

theorem filter_by_endpoint_type_only_matching:
  "(keys_distinct t \<longrightarrow> requests_match m (filter_by_endpoint_type t m)) \<and>
   (keys_distinct x \<and> item_shaped x \<and> \<not> has_matching_request m x \<longrightarrow>
      filter_by_endpoint_type x m = JNone) \<and>
   (distinct (map fst d) \<and> map_of d ''item'' = Some (JList xs) \<and>
    filter_by_endpoint_type (JDict d) m = JDict r \<longrightarrow>
      map_of r ''item'' =
        Some (JList (filter (\<lambda>y. y \<noteq> JNone) (map (\<lambda>c. filter_by_endpoint_type c m) xs)))) \<and>
   (distinct (map fst e) \<and> map_of e ''item'' = Some (JList [JDict q]) \<and>
    is_request_item q \<and> request_method q \<noteq> JStr m \<longrightarrow>
      filter_by_endpoint_type (JDict e) m = JNone)"
proof -
  have c1: "keys_distinct t \<longrightarrow> requests_match m (filter_by_endpoint_type t m)"
    by (simp add: fbe_requests_match)
  have c2: "keys_distinct x \<and> item_shaped x \<and> \<not> has_matching_request m x \<longrightarrow>
      filter_by_endpoint_type x m = JNone"
    using absent_without_match_aux(1)[of x m] by blast
  have c3: "distinct (map fst d) \<and> map_of d ''item'' = Some (JList xs) \<and>
    filter_by_endpoint_type (JDict d) m = JDict r \<longrightarrow>
      map_of r ''item'' =
        Some (JList (filter (\<lambda>y. y \<noteq> JNone) (map (\<lambda>c. filter_by_endpoint_type c m) xs)))"
    using parent_item_list[of d xs m r] by blast
  have c4: "distinct (map fst e) \<and> map_of e ''item'' = Some (JList [JDict q]) \<and>
    is_request_item q \<and> request_method q \<noteq> JStr m \<longrightarrow>
      filter_by_endpoint_type (JDict e) m = JNone"
    using single_request_absent[of e q m] by blast
  show ?thesis by (rule conjI[OF c1 conjI[OF c2 conjI[OF c3 c4]]])
qed

text \<open>
  The theorem at the collection of the specification's scenario, two requests of which
  one is a GET, at a folder that holds only a POST request, and at a document whose
  single request is a POST.
\<close>

theorem filter_by_endpoint_type_only_matching_witness:
  "keys_distinct
     (JDict [(''item'', JList
        [JDict [(''name'', JStr ''A''), (''request'', JDict [(''method'', JStr ''GET'')])],
         JDict [(''name'', JStr ''B''), (''request'', JDict [(''method'', JStr ''POST'')])]])]) \<and>
   filter_by_endpoint_type
     (JDict [(''item'', JList
        [JDict [(''name'', JStr ''A''), (''request'', JDict [(''method'', JStr ''GET'')])],
         JDict [(''name'', JStr ''B''), (''request'', JDict [(''method'', JStr ''POST'')])]])])
     ''GET''
     = JDict [(''item'', JList
        [JDict [(''name'', JStr ''A''), (''request'', JDict [(''method'', JStr ''GET'')])]])] \<and>
   requests_match ''GET''
     (JDict [(''item'', JList
        [JDict [(''name'', JStr ''A''), (''request'', JDict [(''method'', JStr ''GET'')])]])]) \<and>
   item_shaped
     (JDict [(''name'', JStr ''F''), (''item'', JList
        [JDict [(''name'', JStr ''B''), (''request'', JDict [(''method'', JStr ''POST'')])]])]) \<and>
   \<not> has_matching_request ''GET''
     (JDict [(''name'', JStr ''F''), (''item'', JList
        [JDict [(''name'', JStr ''B''), (''request'', JDict [(''method'', JStr ''POST'')])]])]) \<and>
   filter_by_endpoint_type
     (JDict [(''name'', JStr ''F''), (''item'', JList
        [JDict [(''name'', JStr ''B''), (''request'', JDict [(''method'', JStr ''POST'')])]])])
     ''GET'' = JNone \<and>
   is_request_item [(''name'', JStr ''B''), (''request'', JDict [(''method'', JStr ''POST'')])] \<and>
   filter_by_endpoint_type
     (JDict [(''info'', JDict [(''name'', JStr ''doc'')]), (''item'', JList
        [JDict [(''name'', JStr ''B''), (''request'', JDict [(''method'', JStr ''POST'')])]])])
     ''GET'' = JNone"
  using filter_by_endpoint_type_only_matching
    [of "JDict [(''item'', JList
        [JDict [(''name'', JStr ''A''), (''request'', JDict [(''method'', JStr ''GET'')])],
         JDict [(''name'', JStr ''B''), (''request'', JDict [(''method'', JStr ''POST'')])]])]"
      "''GET''"
      "JDict [(''name'', JStr ''F''), (''item'', JList
        [JDict [(''name'', JStr ''B''), (''request'', JDict [(''method'', JStr ''POST'')])]])]"
      "[(''item'', JList
        [JDict [(''name'', JStr ''A''), (''request'', JDict [(''method'', JStr ''GET'')])],
         JDict [(''name'', JStr ''B''), (''request'', JDict [(''method'', JStr ''POST'')])]])]"
      "[JDict [(''name'', JStr ''A''), (''request'', JDict [(''method'', JStr ''GET'')])],
         JDict [(''name'', JStr ''B''), (''request'', JDict [(''method'', JStr ''POST'')])]]"
      "[(''item'', JList
        [JDict [(''name'', JStr ''A''), (''request'', JDict [(''method'', JStr ''GET'')])]])]"
      "[(''info'', JDict [(''name'', JStr ''doc'')]), (''item'', JList
        [JDict [(''name'', JStr ''B''), (''request'', JDict [(''method'', JStr ''POST'')])]])]"
      "[(''name'', JStr ''B''), (''request'', JDict [(''method'', JStr ''POST'')])]"]
  by (simp add: is_request_item_def request_method_def has_key_def dict_get_def Let_def)

text \<open>
  The claim as first stated, for every JSON tree, fails: a folder whose \<^verbatim>\<open>item\<close>
  sequence holds a mapping that is not a request has no request anywhere underneath and
  still stays in its parent's \<^verbatim>\<open>item\<close> sequence, since only mappings with a
  \<^verbatim>\<open>request.method\<close> are ever dropped.
\<close>

theorem filter_by_endpoint_type_folder_without_request_kept:
  "has_key [(''name'', JStr ''F''), (''item'', JList [JDict [(''name'', JStr ''note'')]])] ''item'' \<and>
   \<not> has_matching_request ''GET''
     (JDict [(''name'', JStr ''F''), (''item'', JList [JDict [(''name'', JStr ''note'')]])]) \<and>
   filter_by_endpoint_type
     (JDict [(''item'', JList
        [JDict [(''name'', JStr ''F''), (''item'', JList [JDict [(''name'', JStr ''note'')]])]])])
     ''GET''
     = JDict [(''item'', JList
        [JDict [(''name'', JStr ''F''), (''item'', JList [JDict [(''name'', JStr ''note'')]])]])]"
  by (simp add: is_request_item_def request_method_def has_key_def dict_get_def Let_def)

text \<open>
  Claim C7. In \<^verbatim>\<open>filter_by_endpoint_type\<close>, for every mapping \<open>d\<close> containing the key
  \<^verbatim>\<open>item\<close>: if the recursively filtered value of \<^verbatim>\<open>item\<close> is absent (\<^verbatim>\<open>None\<close>) or an
  empty sequence, the result for \<open>d\<close> is absent.
\<close>

theorem filter_by_endpoint_type_drops_empty_folder:
  "distinct (map fst d) \<Longrightarrow> has_key d ''item'' \<Longrightarrow>
   filter_by_endpoint_type (dict_get d ''item'' JNone) m = JNone \<or>
   filter_by_endpoint_type (dict_get d ''item'' JNone) m = JList [] \<Longrightarrow>
   filter_by_endpoint_type (JDict d) m = JNone"
proof -
  assume a: "distinct (map fst d)" and b: "has_key d ''item''"
    and c: "filter_by_endpoint_type (dict_get d ''item'' JNone) m = JNone \<or>
      filter_by_endpoint_type (dict_get d ''item'' JNone) m = JList []"
  from b obtain v where v: "map_of d ''item'' = Some v" by (auto simp: has_key_def)
  then have "dict_get d ''item'' JNone = v" by (simp add: dict_get_def)
  with c have "\<not> truthy (filter_by_endpoint_type v m)" by auto
  with a v show ?thesis by (rule folder_absent)
qed

theorem filter_by_endpoint_type_drops_empty_folder_witness:
  "distinct (map fst [(''name'', JStr ''F''), (''item'', JList
      [JDict [(''name'', JStr ''B''), (''request'', JDict [(''method'', JStr ''POST'')])]])]) \<and>
   has_key [(''name'', JStr ''F''), (''item'', JList
      [JDict [(''name'', JStr ''B''), (''request'', JDict [(''method'', JStr ''POST'')])]])] ''item'' \<and>
   filter_by_endpoint_type
     (dict_get [(''name'', JStr ''F''), (''item'', JList
      [JDict [(''name'', JStr ''B''), (''request'', JDict [(''method'', JStr ''POST'')])]])]
        ''item'' JNone) ''GET'' = JNone \<and>
   filter_by_endpoint_type
     (JDict [(''name'', JStr ''F''), (''item'', JList
      [JDict [(''name'', JStr ''B''), (''request'', JDict [(''method'', JStr ''POST'')])]])])
     ''GET'' = JNone"
  using filter_by_endpoint_type_drops_empty_folder
    [of "[(''name'', JStr ''F''), (''item'', JList
      [JDict [(''name'', JStr ''B''), (''request'', JDict [(''method'', JStr ''POST'')])]])]"
      "''GET''"]
  by (simp add: is_request_item_def request_method_def has_key_def dict_get_def Let_def)

lemma no_empty_list_items_iff:
  "no_empty_list_items d = (\<forall>kv \<in> set d. no_empty_list (snd kv))"
  by (induction d) auto

lemma fbe_no_empty_list:
  "no_empty_list (filter_by_endpoint_type t m)"
  "no_empty_list_items acc \<Longrightarrow> no_empty_list_items (filter_by_endpoint_type_items d m acc)"
  "no_empty_list_list (filter_by_endpoint_type_list xs m)"
proof (induction t m and d m acc and xs m
    rule: filter_by_endpoint_type_filter_by_endpoint_type_items_filter_by_endpoint_type_list.induct)
  case (1 d endpoint_type)
  then show ?case by (simp add: Let_def)
next
  case (2 xs endpoint_type)
  then show ?case by (simp add: Let_def)
next
  case (5 key val rest endpoint_type result)
  show ?case
  proof (cases "filter_by_endpoint_type val endpoint_type = JNone")
    case True
    with 5 show ?thesis by simp
  next
    case False
    have "no_empty_list_items (AList.update key (filter_by_endpoint_type val endpoint_type) result)"
      using set_update_subset[of key "filter_by_endpoint_type val endpoint_type" result]
        "5.IH"(1) "5.prems"
      by (auto simp: no_empty_list_items_iff)
    with 5 False show ?thesis by (simp add: Let_def)
  qed
next
  case (7 x xs endpoint_type)
  then show ?case by (simp add: Let_def)
qed simp_all

text \<open>
  Claim C9. For every input and method, \<^verbatim>\<open>filter_by_endpoint_type\<close> never returns an
  empty sequence: a sequence input yields either \<^verbatim>\<open>None\<close> or a non-empty sequence, and
  every sequence that appears anywhere inside the returned tree is non-empty.
\<close>

theorem filter_by_endpoint_type_never_empty_list:
  "no_empty_list (filter_by_endpoint_type t m) \<and>
   filter_by_endpoint_type t m \<noteq> JList [] \<and>
   (filter_by_endpoint_type (JList xs) m = JNone \<or>
    (\<exists>y ys. filter_by_endpoint_type (JList xs) m = JList (y # ys)))"
proof -
  have a: "no_empty_list (filter_by_endpoint_type t m)" by (rule fbe_no_empty_list(1))
  have b: "filter_by_endpoint_type t m \<noteq> JList []"
    using a by (cases "filter_by_endpoint_type t m") auto
  have c: "filter_by_endpoint_type (JList xs) m = JNone \<or>
    (\<exists>y ys. filter_by_endpoint_type (JList xs) m = JList (y # ys))"
    by (cases "filter_by_endpoint_type_list xs m") (simp_all add: Let_def)
  from a b c show ?thesis by blast
qed

text \<open>
  Claim C10. \<^verbatim>\<open>filter_by_endpoint_type\<close> omits from a result mapping any key whose value
  filters to an empty sequence, that is to \<^verbatim>\<open>None\<close>, not only the \<^verbatim>\<open>item\<close> key: a Request
  mapping whose method matches the target and which carries \<^verbatim>\<open>"response": []\<close> is
  returned without that key, so a matching request is not always returned verbatim.
\<close>

theorem filter_by_endpoint_type_omits_empty_values:
  "(distinct (map fst d) \<and> map_of d k = Some v \<and>
    (filter_by_endpoint_type v m = JNone \<or> filter_by_endpoint_type v m = JList []) \<and>
    filter_by_endpoint_type (JDict d) m = JDict r \<longrightarrow> \<not> has_key r k) \<and>
   filter_by_endpoint_type (JList []) m = JNone \<and>
   filter_by_endpoint_type
     (JDict [(''name'', JStr ''A''), (''request'', JDict [(''method'', JStr ''GET'')]),
             (''response'', JList [])]) ''GET''
     = JDict [(''name'', JStr ''A''), (''request'', JDict [(''method'', JStr ''GET'')])]"
proof -
  have c1: "distinct (map fst d) \<and> map_of d k = Some v \<and>
      (filter_by_endpoint_type v m = JNone \<or> filter_by_endpoint_type v m = JList []) \<and>
      filter_by_endpoint_type (JDict d) m = JDict r \<longrightarrow> \<not> has_key r k"
  proof (intro impI, elim conjE)
    assume h: "distinct (map fst d)" "map_of d k = Some v"
      "filter_by_endpoint_type v m = JNone \<or> filter_by_endpoint_type v m = JList []"
      "filter_by_endpoint_type (JDict d) m = JDict r"
    have "filter_by_endpoint_type v m \<noteq> JList []"
      using fbe_no_empty_list(1)[of v m] by auto
    with h(3) have none: "filter_by_endpoint_type v m = JNone" by simp
    from fbe_is_dict[OF h(4)] have r: "r = filter_by_endpoint_type_items d m []" by auto
    show "\<not> has_key r k" unfolding r has_key_def
      using fbe_items_lookup[OF h(1), of m k] h(2) none by simp
  qed
  have c2: "filter_by_endpoint_type (JList []) m = JNone" by simp
  have c3: "filter_by_endpoint_type
     (JDict [(''name'', JStr ''A''), (''request'', JDict [(''method'', JStr ''GET'')]),
             (''response'', JList [])]) ''GET''
     = JDict [(''name'', JStr ''A''), (''request'', JDict [(''method'', JStr ''GET'')])]"
    by (simp add: is_request_item_def request_method_def has_key_def dict_get_def Let_def)
  show ?thesis by (rule conjI[OF c1 conjI[OF c2 c3]])
qed

theorem filter_by_endpoint_type_omits_empty_values_witness:
  "distinct (map fst [(''id'', JInt 7), (''event'', JList [JNone])]) \<and>
   map_of [(''id'', JInt 7), (''event'', JList [JNone])] ''event'' = Some (JList [JNone]) \<and>
   filter_by_endpoint_type (JList [JNone]) ''POST'' = JNone \<and>
   filter_by_endpoint_type (JDict [(''id'', JInt 7), (''event'', JList [JNone])]) ''POST''
     = JDict [(''id'', JInt 7)] \<and>
   \<not> has_key [(''id'', JInt 7)] ''event''"
  using filter_by_endpoint_type_omits_empty_values
    [of "[(''id'', JInt 7), (''event'', JList [JNone])]" "''event''" "JList [JNone]"
      "''POST''" "[(''id'', JInt 7)]"]
  by (simp add: is_request_item_def request_method_def has_key_def dict_get_def Let_def)

section \<open>The whitelist filter\<close>

lemma whitelist_comprehension_dicts:
  "\<forall>x \<in> set xs. is_dict x \<Longrightarrow>
   whitelist_comprehension xs (JList W) =
     Inr (filter (\<lambda>x. list_ex (py_eq (item_name x)) W) xs)"
proof (induction xs)
  case Nil
  then show ?case by simp
next
  case (Cons x xs)
  then obtain d where "x = JDict d" by (cases x) auto
  with Cons show ?case by simp
qed

lemma py_eq_str_right: "py_eq n (JStr s) = (n = JStr s)"
  by (cases n) (auto split: option.splits)

lemma in_string_whitelist:
  "list_ex (py_eq n) (map JStr names) = (\<exists>s \<in> set names. n = JStr s)"
  by (induction names) (auto simp: py_eq_str_right)

lemma fwf_dicts:
  assumes "map_of d ''item'' = Some (JList xs)" "\<forall>x \<in> set xs. is_dict x"
  shows "filter_by_whitelist_folders (JDict d) (JList W) =
    Inr (JDict (AList.update ''item''
      (JList (filter (\<lambda>x. list_ex (py_eq (item_name x)) W) xs)) d))"
  using assms by (simp add: has_key_def dict_get_def whitelist_comprehension_dicts)

lemma lacks_name_item_name: "lacks_name x \<Longrightarrow> item_name x = JNone"
  by (cases x) (auto simp: has_key_def dict_get_def)

text \<open>
  Claim C4, as the code has it. For every mapping with an \<^verbatim>\<open>item\<close> sequence whose
  elements are all mappings and every whitelist sequence \<open>W\<close>,
  \<^verbatim>\<open>filter_by_whitelist_folders\<close> keeps exactly the top-level items whose \<^verbatim>\<open>name\<close>
  value, read with \<^verbatim>\<open>item.get('name')\<close>, is a member of \<open>W\<close> (for a whitelist of
  strings: whose name is one of these strings) and removes all others, preserving the
  relative order of survivors; an empty whitelist yields an empty top-level \<^verbatim>\<open>item\<close>
  sequence; an input that is not a mapping or lacks an \<^verbatim>\<open>item\<close> key is returned
  unchanged; the survivors are the elements themselves, so nothing below the top-level
  \<^verbatim>\<open>item\<close> list is filtered.
\<close>

theorem filter_by_whitelist_folders_top_level:
  "(map_of d ''item'' = Some (JList xs) \<and> (\<forall>x \<in> set xs. is_dict x) \<longrightarrow>
      filter_by_whitelist_folders (JDict d) (JList W) =
        Inr (JDict (AList.update ''item''
          (JList (filter (\<lambda>x. list_ex (py_eq (item_name x)) W) xs)) d)) \<and>
      filter_by_whitelist_folders (JDict d) (JList (map JStr names)) =
        Inr (JDict (AList.update ''item''
          (JList (filter (\<lambda>x. \<exists>s \<in> set names. item_name x = JStr s) xs)) d)) \<and>
      filter_by_whitelist_folders (JDict d) (JList []) =
        Inr (JDict (AList.update ''item'' (JList []) d))) \<and>
   (\<not> has_key d ''item'' \<longrightarrow> filter_by_whitelist_folders (JDict d) V = Inr (JDict d)) \<and>
   (\<not> is_dict data \<longrightarrow> filter_by_whitelist_folders data V = Inr data)"
proof -
  have c1: "map_of d ''item'' = Some (JList xs) \<and> (\<forall>x \<in> set xs. is_dict x) \<longrightarrow>
      filter_by_whitelist_folders (JDict d) (JList W) =
        Inr (JDict (AList.update ''item''
          (JList (filter (\<lambda>x. list_ex (py_eq (item_name x)) W) xs)) d)) \<and>
      filter_by_whitelist_folders (JDict d) (JList (map JStr names)) =
        Inr (JDict (AList.update ''item''
          (JList (filter (\<lambda>x. \<exists>s \<in> set names. item_name x = JStr s) xs)) d)) \<and>
      filter_by_whitelist_folders (JDict d) (JList []) =
        Inr (JDict (AList.update ''item'' (JList []) d))"
  proof (intro impI, elim conjE)
    assume h: "map_of d ''item'' = Some (JList xs)" "\<forall>x \<in> set xs. is_dict x"
    show "filter_by_whitelist_folders (JDict d) (JList W) =
        Inr (JDict (AList.update ''item''
          (JList (filter (\<lambda>x. list_ex (py_eq (item_name x)) W) xs)) d)) \<and>
      filter_by_whitelist_folders (JDict d) (JList (map JStr names)) =
        Inr (JDict (AList.update ''item''
          (JList (filter (\<lambda>x. \<exists>s \<in> set names. item_name x = JStr s) xs)) d)) \<and>
      filter_by_whitelist_folders (JDict d) (JList []) =
        Inr (JDict (AList.update ''item'' (JList []) d))"
      using fwf_dicts[OF h, of W] fwf_dicts[OF h, of "map JStr names"] fwf_dicts[OF h, of "[]"]
      by (simp add: in_string_whitelist)
  qed
  have c2: "\<not> has_key d ''item'' \<longrightarrow> filter_by_whitelist_folders (JDict d) V = Inr (JDict d)"
    by simp
  have c3: "\<not> is_dict data \<longrightarrow> filter_by_whitelist_folders data V = Inr data"
    by (cases data) simp_all
  show ?thesis by (rule conjI[OF c1 conjI[OF c2 c3]])
qed

text \<open>
  The theorem at a collection with the folders X and Y and the whitelist \<^verbatim>\<open>["X"]\<close>:
  X survives with its nested folder Z untouched, although Z is not whitelisted.
\<close>

theorem filter_by_whitelist_folders_top_level_witness:
  "map_of [(''info'', JStr ''i''), (''item'', JList
      [JDict [(''name'', JStr ''X''), (''item'', JList [JDict [(''name'', JStr ''Z''), (''item'', JList [])]])],
       JDict [(''name'', JStr ''Y''), (''item'', JList [])]])] ''item''
     = Some (JList
      [JDict [(''name'', JStr ''X''), (''item'', JList [JDict [(''name'', JStr ''Z''), (''item'', JList [])]])],
       JDict [(''name'', JStr ''Y''), (''item'', JList [])]]) \<and>
   is_dict (JDict [(''name'', JStr ''X''), (''item'', JList [JDict [(''name'', JStr ''Z''), (''item'', JList [])]])]) \<and>
   is_dict (JDict [(''name'', JStr ''Y''), (''item'', JList [])]) \<and>
   filter_by_whitelist_folders
     (JDict [(''info'', JStr ''i''), (''item'', JList
      [JDict [(''name'', JStr ''X''), (''item'', JList [JDict [(''name'', JStr ''Z''), (''item'', JList [])]])],
       JDict [(''name'', JStr ''Y''), (''item'', JList [])]])])
     (JList [JStr ''X''])
     = Inr (JDict [(''info'', JStr ''i''), (''item'', JList
      [JDict [(''name'', JStr ''X''), (''item'', JList [JDict [(''name'', JStr ''Z''), (''item'', JList [])]])]])]) \<and>
   \<not> has_key [(''info'', JStr ''i'')] ''item'' \<and>
   filter_by_whitelist_folders (JDict [(''info'', JStr ''i'')]) (JList [JStr ''X''])
     = Inr (JDict [(''info'', JStr ''i'')]) \<and>
   \<not> is_dict (JStr ''not a dict'') \<and>
   filter_by_whitelist_folders (JStr ''not a dict'') (JList [JStr ''X'']) = Inr (JStr ''not a dict'')"
  using filter_by_whitelist_folders_top_level
    [of "[(''info'', JStr ''i''), (''item'', JList
      [JDict [(''name'', JStr ''X''), (''item'', JList [JDict [(''name'', JStr ''Z''), (''item'', JList [])]])],
       JDict [(''name'', JStr ''Y''), (''item'', JList [])]])]"
      "[JDict [(''name'', JStr ''X''), (''item'', JList [JDict [(''name'', JStr ''Z''), (''item'', JList [])]])],
       JDict [(''name'', JStr ''Y''), (''item'', JList [])]]"
      "[JStr ''X'']" "[''X'']" "JList [JStr ''X'']" "JStr ''not a dict''"]
    filter_by_whitelist_folders_top_level
    [of "[(''info'', JStr ''i'')]" "[]" "[]" "[]" "JList [JStr ''X'']" "JStr ''not a dict''"]
  by (simp add: has_key_def dict_get_def)

text \<open>
  The claim as first stated, for every \<^verbatim>\<open>item\<close> sequence, fails: only a dictionary has
  \<^verbatim>\<open>get\<close>, so an element that is not a mapping raises \<^verbatim>\<open>AttributeError\<close>, also with an
  empty whitelist, where the claim promises an empty \<^verbatim>\<open>item\<close> sequence.
\<close>

theorem filter_by_whitelist_folders_non_mapping_element:
  "filter_by_whitelist_folders (JDict [(''item'', JList [JInt 1])]) (JList [])
     = Inl AttributeError"
  by (simp add: has_key_def dict_get_def)

text \<open>
  Claim C5, as the code has it. For every whitelist sequence \<open>W\<close> that does not contain
  \<^verbatim>\<open>null\<close> and every mapping whose \<^verbatim>\<open>item\<close> sequence holds only mappings, a top-level
  element lacking a \<^verbatim>\<open>name\<close> key is never matched by \<^verbatim>\<open>filter_by_whitelist_folders\<close>:
  the call returns without an error, and the new \<^verbatim>\<open>item\<close> sequence holds exactly the
  elements that have a \<^verbatim>\<open>name\<close> key whose value is a member of \<open>W\<close>.
\<close>

theorem filter_by_whitelist_folders_nameless_removed:
  "map_of d ''item'' = Some (JList xs) \<and> (\<forall>x \<in> set xs. is_dict x) \<and> JNone \<notin> set W \<longrightarrow>
     filter_by_whitelist_folders (JDict d) (JList W) =
       Inr (JDict (AList.update ''item''
         (JList (filter (\<lambda>x. \<not> lacks_name x \<and> list_ex (py_eq (item_name x)) W) xs)) d))"
proof (intro impI, elim conjE)
  assume h: "map_of d ''item'' = Some (JList xs)" "\<forall>x \<in> set xs. is_dict x"
    and w: "JNone \<notin> set W"
  have "list_ex (py_eq (item_name x)) W = (\<not> lacks_name x \<and> list_ex (py_eq (item_name x)) W)"
    for x
  proof (cases "lacks_name x")
    case True
    then have "item_name x = JNone" by (rule lacks_name_item_name)
    with w True show ?thesis by (auto simp: list_ex_iff)
  next
    case False
    then show ?thesis by simp
  qed
  then have "filter (\<lambda>x. list_ex (py_eq (item_name x)) W) xs =
      filter (\<lambda>x. \<not> lacks_name x \<and> list_ex (py_eq (item_name x)) W) xs"
    by simp
  with fwf_dicts[OF h, of W]
  show "filter_by_whitelist_folders (JDict d) (JList W) =
       Inr (JDict (AList.update ''item''
         (JList (filter (\<lambda>x. \<not> lacks_name x \<and> list_ex (py_eq (item_name x)) W) xs)) d))"
    by simp
qed

theorem filter_by_whitelist_folders_nameless_removed_witness:
  "map_of [(''item'', JList [JDict [(''id'', JInt 1)], JDict [(''name'', JStr ''A'')]])] ''item''
     = Some (JList [JDict [(''id'', JInt 1)], JDict [(''name'', JStr ''A'')]]) \<and>
   is_dict (JDict [(''id'', JInt 1)]) \<and> is_dict (JDict [(''name'', JStr ''A'')]) \<and>
   JNone \<notin> set [JStr ''A'', JInt 1] \<and>
   lacks_name (JDict [(''id'', JInt 1)]) \<and>
   filter_by_whitelist_folders
     (JDict [(''item'', JList [JDict [(''id'', JInt 1)], JDict [(''name'', JStr ''A'')]])])
     (JList [JStr ''A'', JInt 1])
     = Inr (JDict [(''item'', JList [JDict [(''name'', JStr ''A'')]])])"
  using filter_by_whitelist_folders_nameless_removed
    [of "[(''item'', JList [JDict [(''id'', JInt 1)], JDict [(''name'', JStr ''A'')]])]"
      "[JDict [(''id'', JInt 1)], JDict [(''name'', JStr ''A'')]]"
      "[JStr ''A'', JInt 1]"]
  by (simp add: has_key_def dict_get_def)

text \<open>
  The claim as first stated, for all whitelist contents, fails: \<^verbatim>\<open>item.get('name')\<close> is
  \<^verbatim>\<open>None\<close> for an element without a \<^verbatim>\<open>name\<close> key, and \<^verbatim>\<open>None\<close> is a member of a
  whitelist that contains \<^verbatim>\<open>null\<close>, so the element is kept; and an element that is not
  a mapping next to it makes the call raise instead of removing it.
\<close>

theorem filter_by_whitelist_folders_null_matches_nameless:
  "lacks_name (JDict [(''id'', JInt 1)]) \<and>
   filter_by_whitelist_folders
     (JDict [(''item'', JList [JDict [(''id'', JInt 1)]])]) (JList [JNone])
     = Inr (JDict [(''item'', JList [JDict [(''id'', JInt 1)]])]) \<and>
   filter_by_whitelist_folders
     (JDict [(''item'', JList [JDict [(''id'', JInt 1)], JInt 5])]) (JList [JStr ''A''])
     = Inl AttributeError"
  by (simp add: has_key_def dict_get_def)

section \<open>The whitelist reader and the exit codes\<close>

lemma main_propagates:
  assumes "read_postman_collection w (arg_input_file a) = Inr c"
    "arg_whitelist_folders a = Some p" "p \<noteq> []" "read_whitelist_folders w p = Inl e"
  shows "main_body w a = Inl e \<and> main w a = exit_code e"
  using assms by (simp add: main_body_def main_def whitelist_stage_def given_def)

text \<open>
  Claim C6. \<^verbatim>\<open>read_whitelist_folders\<close> fails with \<^verbatim>\<open>FileNotFoundError\<close> (NotFound) when the
  path does not exist, with \<^verbatim>\<open>JSONDecodeError\<close> (MalformedInput) when JSON parsing fails
  and with \<^verbatim>\<open>KeyError\<close> (MissingKey) when the parsed mapping lacks a \<^verbatim>\<open>folders\<close> key; on
  valid input it returns exactly the value stored under \<^verbatim>\<open>folders\<close>. Each failure
  reaches \<^verbatim>\<open>main\<close> unmodified, where NotFound gives exit code 2 and MalformedInput and
  MissingKey both give 3; success is 0 and any other error is 1.
\<close>

theorem read_whitelist_folders_errors_and_exit_codes:
  "(files w p = Missing \<longrightarrow> read_whitelist_folders w p = Inl FileNotFoundError) \<and>
   (files w p = Readable text \<and> json_load w text = None \<longrightarrow>
      read_whitelist_folders w p = Inl JSONDecodeError) \<and>
   (files w p = Readable text \<and> json_load w text = Some (JDict d) \<and> \<not> has_key d ''folders'' \<longrightarrow>
      read_whitelist_folders w p = Inl KeyError) \<and>
   (files w p = Readable text \<and> json_load w text = Some (JDict d) \<and>
    map_of d ''folders'' = Some v \<longrightarrow>
      read_whitelist_folders w p = Inr v) \<and>
   (read_postman_collection w (arg_input_file a) = Inr c \<and>
    arg_whitelist_folders a = Some p \<and> p \<noteq> [] \<and> read_whitelist_folders w p = Inl e \<longrightarrow>
      main_body w a = Inl e \<and> main w a = exit_code e) \<and>
   exit_code FileNotFoundError = 2 \<and> exit_code JSONDecodeError = 3 \<and> exit_code KeyError = 3 \<and>
   (main w a = 0) = (\<exists>written. main_body w a = Inr written) \<and>
   (main_body w a = Inl e' \<and> e' \<noteq> FileNotFoundError \<and> e' \<noteq> JSONDecodeError \<and>
    e' \<noteq> KeyError \<longrightarrow> main w a = 1)"
proof -
  have c1: "files w p = Missing \<longrightarrow> read_whitelist_folders w p = Inl FileNotFoundError"
    by (simp add: read_whitelist_folders_def)
  have c2: "files w p = Readable text \<and> json_load w text = None \<longrightarrow>
      read_whitelist_folders w p = Inl JSONDecodeError"
    by (simp add: read_whitelist_folders_def)
  have c3: "files w p = Readable text \<and> json_load w text = Some (JDict d) \<and>
      \<not> has_key d ''folders'' \<longrightarrow> read_whitelist_folders w p = Inl KeyError"
    by (simp add: read_whitelist_folders_def)
  have c4: "files w p = Readable text \<and> json_load w text = Some (JDict d) \<and>
    map_of d ''folders'' = Some v \<longrightarrow> read_whitelist_folders w p = Inr v"
    by (simp add: read_whitelist_folders_def has_key_def)
  have c5: "read_postman_collection w (arg_input_file a) = Inr c \<and>
    arg_whitelist_folders a = Some p \<and> p \<noteq> [] \<and> read_whitelist_folders w p = Inl e \<longrightarrow>
      main_body w a = Inl e \<and> main w a = exit_code e"
    using main_propagates[of w a c p e] by blast
  have c6: "exit_code FileNotFoundError = 2" and c7: "exit_code JSONDecodeError = 3"
    and c8: "exit_code KeyError = 3" by simp_all
  have pos: "exit_code x \<noteq> 0" for x by (cases x) simp_all
  have c9: "(main w a = 0) = (\<exists>written. main_body w a = Inr written)"
    by (cases "main_body w a") (simp_all add: main_def pos)
  have c10: "main_body w a = Inl e' \<and> e' \<noteq> FileNotFoundError \<and> e' \<noteq> JSONDecodeError \<and>
    e' \<noteq> KeyError \<longrightarrow> main w a = 1"
    by (cases e') (simp_all add: main_def)
  show ?thesis
    by (rule conjI[OF c1 conjI[OF c2 conjI[OF c3 conjI[OF c4 conjI[OF c5
          conjI[OF c6 conjI[OF c7 conjI[OF c8 conjI[OF c9 c10]]]]]]]]])
qed

theorem read_whitelist_folders_errors_and_exit_codes_witness:
  "files example_world ''missing.json'' = Missing \<and>
   read_whitelist_folders example_world ''missing.json'' = Inl FileNotFoundError \<and>
   main example_world (example_args ''missing.json'') = 2 \<and>
   files example_world ''broken.json'' = Readable ''B'' \<and>
   json_load example_world ''B'' = None \<and>
   read_whitelist_folders example_world ''broken.json'' = Inl JSONDecodeError \<and>
   main example_world (example_args ''broken.json'') = 3 \<and>
   files example_world ''nokey.json'' = Readable ''N'' \<and>
   json_load example_world ''N'' = Some (JDict [(''other'', JList [])]) \<and>
   read_whitelist_folders example_world ''nokey.json'' = Inl KeyError \<and>
   main example_world (example_args ''nokey.json'') = 3 \<and>
   files example_world ''folders.json'' = Readable ''F'' \<and>
   json_load example_world ''F'' = Some (JDict [(''folders'', JList [JStr ''X''])]) \<and>
   read_whitelist_folders example_world ''folders.json'' = Inr (JList [JStr ''X'']) \<and>
   main example_world (example_args ''folders.json'') = 0"
proof -
  have rc: "read_postman_collection example_world (arg_input_file (example_args q)) =
      Inr (JDict [(''item'', JList [JDict [(''name'', JStr ''X'')]])])" for q
    by (simp add: read_postman_collection_def example_world_def example_args_def)
  have a: "arg_whitelist_folders (example_args q) = Some q" for q
    by (simp add: example_args_def)
  note t1 = read_whitelist_folders_errors_and_exit_codes[of example_world "''missing.json''" "''''" "[]" JNone
      "example_args ''missing.json''" "JDict [(''item'', JList [JDict [(''name'', JStr ''X'')]])]"
      FileNotFoundError OSError]
  note t2 = read_whitelist_folders_errors_and_exit_codes[of example_world "''broken.json''" "''B''" "[]" JNone
      "example_args ''broken.json''" "JDict [(''item'', JList [JDict [(''name'', JStr ''X'')]])]"
      JSONDecodeError OSError]
  note t3 = read_whitelist_folders_errors_and_exit_codes[of example_world "''nokey.json''" "''N''" "[(''other'', JList [])]" JNone
      "example_args ''nokey.json''" "JDict [(''item'', JList [JDict [(''name'', JStr ''X'')]])]"
      KeyError OSError]
  note t4 = read_whitelist_folders_errors_and_exit_codes[of example_world "''folders.json''" "''F''" "[(''folders'', JList [JStr ''X''])]"
      "JList [JStr ''X'']"
      "example_args ''folders.json''" "JDict [(''item'', JList [JDict [(''name'', JStr ''X'')]])]"
      KeyError OSError]
  have f: "files example_world ''missing.json'' = Missing"
    "files example_world ''broken.json'' = Readable ''B''"
    "files example_world ''nokey.json'' = Readable ''N''"
    "files example_world ''folders.json'' = Readable ''F''"
    "json_load example_world ''B'' = None"
    "json_load example_world ''N'' = Some (JDict [(''other'', JList [])])"
    "json_load example_world ''F'' = Some (JDict [(''folders'', JList [JStr ''X''])])"
    by (simp_all add: example_world_def)
  have m0: "main example_world (example_args ''folders.json'') = 0"
    by (simp add: main_def main_body_def whitelist_stage_def read_whitelist_folders_def
        read_postman_collection_def write_postman_subset_def given_def has_key_def dict_get_def
        example_world_def example_args_def)
  from t1 f rc a have r1: "read_whitelist_folders example_world ''missing.json'' = Inl FileNotFoundError"
    "main example_world (example_args ''missing.json'') = 2" by simp_all
  from t2 f rc a have r2: "read_whitelist_folders example_world ''broken.json'' = Inl JSONDecodeError"
    "main example_world (example_args ''broken.json'') = 3" by simp_all
  from t3 f rc a have r3: "read_whitelist_folders example_world ''nokey.json'' = Inl KeyError"
    "main example_world (example_args ''nokey.json'') = 3" by (simp_all add: has_key_def)
  from t4 f have r4: "read_whitelist_folders example_world ''folders.json'' = Inr (JList [JStr ''X''])"
    by simp
  from f r1 r2 r3 r4 m0 show ?thesis by simp
qed

section \<open>Effects on the store\<close>

lemma extends_iff:
  "extends h h' = (length h \<le> length h' \<and> (\<forall>a < length h. h' ! a = h ! a))"
  unfolding extends_def by (auto simp: list_eq_iff_nth_eq)

lemma extends_refl: "extends h h"
  by (simp add: extends_iff)

lemma extends_trans: "extends h1 h2 \<Longrightarrow> extends h2 h3 \<Longrightarrow> extends h1 h3"
  by (auto simp: extends_iff)

lemma extends_append: "extends h (h @ xs)"
  by (simp add: extends_iff nth_append)

lemma length_dict_store [simp]: "length (dict_store h r k v) = length h"
  by (simp add: dict_store_def split: obj.splits)

lemma length_list_append [simp]: "length (list_append h r v) = length h"
  by (simp add: list_append_def split: obj.splits)

lemma dict_store_other: "a \<noteq> r \<Longrightarrow> dict_store h r k v ! a = h ! a"
  by (simp add: dict_store_def split: obj.splits)

lemma list_append_other: "a \<noteq> r \<Longrightarrow> list_append h r v ! a = h ! a"
  by (simp add: list_append_def split: obj.splits)

lemma dict_store_at:
  "r < length h \<Longrightarrow> h ! r = ODict acc \<Longrightarrow> dict_store h r k v ! r = ODict (AList.update k v acc)"
  by (simp add: dict_store_def)

lemma list_append_at:
  "r < length h \<Longrightarrow> h ! r = OList acc \<Longrightarrow> list_append h r v ! r = OList (acc @ [v])"
  by (simp add: list_append_def)

lemma abs_extends:
  "h_abs k h v = Some t \<Longrightarrow> extends h g \<Longrightarrow> h_abs k g v = Some t"
  "h_abs_items k h kvs = Some kts \<Longrightarrow> extends h g \<Longrightarrow> h_abs_items k g kvs = Some kts"
  "h_abs_list k h xs = Some ts \<Longrightarrow> extends h g \<Longrightarrow> h_abs_list k g xs = Some ts"
proof (induction k h v and k h kvs and k h xs arbitrary: t and kts and ts
    rule: h_abs_h_abs_items_h_abs_list.induct)
  case (7 k h a)
  then show ?case
    by (auto simp: extends_iff split: if_splits obj.splits)
next
  case (9 k h key v rest)
  then show ?case by (auto split: option.splits)
next
  case (11 k h x xs)
  then show ?case by (auto split: option.splits)
qed auto

lemma h_rd_frame:
  "h_remove_descriptions n h v = Some (v', h') \<Longrightarrow> extends h h'"
  "h_remove_descriptions_items n h r kvs = Some h' \<Longrightarrow>
     length h \<le> length h' \<and> (\<forall>a < length h. a \<noteq> r \<longrightarrow> h' ! a = h ! a)"
  "h_remove_descriptions_list n h r xs = Some h' \<Longrightarrow>
     length h \<le> length h' \<and> (\<forall>a < length h. a \<noteq> r \<longrightarrow> h' ! a = h ! a)"
proof (induction n h v and n h r kvs and n h r xs arbitrary: v' h' and h' and h'
    rule: h_remove_descriptions_h_remove_descriptions_items_h_remove_descriptions_list.induct)
  case (1 h data)
  then show ?case by simp
next
  case (2 n h a)
  show ?case
  proof (cases "h ! a")
    case (ODict kvs)
    with "2.prems" obtain hh where hh:
      "h_remove_descriptions_items n (h @ [ODict []]) (length h) kvs = Some hh" "h' = hh"
      by (auto split: if_splits option.splits)
    have "a < length h" using "2.prems" by (auto split: if_splits)
    from "2.IH"(1)[OF this ODict hh(1)] hh(2) show ?thesis
      by (auto simp: extends_iff nth_append)
  next
    case (OList xs)
    with "2.prems" obtain hh where hh:
      "h_remove_descriptions_list n (h @ [OList []]) (length h) xs = Some hh" "h' = hh"
      by (auto split: if_splits option.splits)
    have "a < length h" using "2.prems" by (auto split: if_splits)
    from "2.IH"(2)[OF this OList hh(1)] hh(2) show ?thesis
      by (auto simp: extends_iff nth_append)
  qed
next
  case (5 n h result key val rest)
  show ?case
  proof (cases "key = ''description''")
    case True
    with 5 show ?thesis by simp
  next
    case False
    with "5.prems" obtain v1 h1 where s: "h_remove_descriptions n h val = Some (v1, h1)"
      "h_remove_descriptions_items n (dict_store h1 result key v1) result rest = Some h'"
      by (auto split: option.splits)
    from "5.IH"(2)[OF False s(1)] have e: "extends h h1" .
    from "5.IH"(3)[OF False s(1) refl s(2)] e show ?thesis
      by (auto simp: extends_iff dict_store_other)
  qed
next
  case (7 n h result x xs)
  from "7.prems" obtain v1 h1 where s: "h_remove_descriptions n h x = Some (v1, h1)"
    "h_remove_descriptions_list n (list_append h1 result v1) result xs = Some h'"
    by (auto split: option.splits)
  from "7.IH"(1)[OF s(1)] have e: "extends h h1" .
  from "7.IH"(2)[OF s(1) refl s(2)] e show ?case
    by (auto simp: extends_iff list_append_other)
qed (auto simp: extends_refl)

lemma abs_items_update:
  "h_abs_items k g acc = Some acc_t \<Longrightarrow> h_abs k g v = Some t \<Longrightarrow>
   h_abs_items k g (AList.update key v acc) = Some (AList.update key t acc_t)"
proof (induction acc arbitrary: acc_t)
  case Nil
  then show ?case by simp
next
  case (Cons p acc)
  obtain k' v' where p: "p = (k', v')" by (cases p)
  with Cons show ?case by (auto split: option.splits)
qed

lemma abs_list_append:
  "h_abs_list k g acc = Some acc_t \<Longrightarrow> h_abs k g v = Some t \<Longrightarrow>
   h_abs_list k g (acc @ [v]) = Some (acc_t @ [t])"
  by (induction acc arbitrary: acc_t) (auto split: option.splits)

lemma abs_scalar:
  "h_abs k h0 v = Some t \<Longrightarrow> \<forall>a. v \<noteq> VRef a \<Longrightarrow> is_scalar t \<and> h_abs k g v = Some t"
  by (cases k; cases v) auto

lemma rd_scalar: "is_scalar t \<Longrightarrow> remove_descriptions t = t"
  by (cases t) auto

lemma h_rd_items_refines:
  assumes IH: "refines_remove_descriptions k"
  shows "h_abs_items k h0 kvs = Some kts \<Longrightarrow> extends h0 h \<Longrightarrow> length h0 \<le> r \<Longrightarrow>
    r < length h \<Longrightarrow> h ! r = ODict acc \<Longrightarrow>
    (\<forall>g. agrees (Suc r) (length h) h g \<longrightarrow> h_abs_items k g acc = Some acc_t) \<Longrightarrow>
    \<exists>h' acc'. h_remove_descriptions_items k h r kvs = Some h' \<and> h' ! r = ODict acc' \<and>
      (\<forall>g. agrees (Suc r) (length h') h' g \<longrightarrow>
         h_abs_items k g acc' = Some (remove_descriptions_items kts acc_t))"
proof (induction kvs arbitrary: h acc acc_t kts)
  case Nil
  then show ?case by auto
next
  case (Cons p rest)
  obtain key val where p: "p = (key, val)" by (cases p)
  from Cons.prems(1) p obtain tv kts' where kt:
    "h_abs k h0 val = Some tv" "h_abs_items k h0 rest = Some kts'" "kts = (key, tv) # kts'"
    by (auto split: option.splits)
  show ?case
  proof (cases "key = ''description''")
    case True
    from Cons.IH[OF kt(2) Cons.prems(2-6)] True p kt(3) show ?thesis by simp
  next
    case False
    from IH kt(1) Cons.prems(2) obtain v1 h1 where c:
      "h_remove_descriptions k h val = Some (v1, h1)"
      "\<forall>g. agrees (length h) (length h1) h1 g \<longrightarrow> h_abs k g v1 = Some (remove_descriptions tv)"
      unfolding refines_remove_descriptions_def by blast
    from h_rd_frame(1)[OF c(1)] have e: "extends h h1" .
    let ?h2 = "dict_store h1 r key v1"
    let ?acc2 = "AList.update key v1 acc"
    have r1: "r < length h1" "h1 ! r = ODict acc"
      using e Cons.prems(4,5) by (auto simp: extends_iff)
    have a: "extends h0 ?h2"
      using Cons.prems(2,3) e by (auto simp: extends_iff dict_store_other)
    have b: "r < length ?h2" using r1 by simp
    have c2: "?h2 ! r = ODict ?acc2" using r1 by (rule dict_store_at)
    have d: "\<forall>g. agrees (Suc r) (length ?h2) ?h2 g \<longrightarrow>
        h_abs_items k g ?acc2 = Some (AList.update key (remove_descriptions tv) acc_t)"
    proof (intro allI impI)
      fix g assume g: "agrees (Suc r) (length ?h2) ?h2 g"
      have g1: "agrees (Suc r) (length h) h g"
        using g e Cons.prems(4) by (auto simp: agrees_def extends_iff dict_store_other)
      have g2: "agrees (length h) (length h1) h1 g"
        using g Cons.prems(4) by (auto simp: agrees_def dict_store_other)
      from g1 Cons.prems(6) have "h_abs_items k g acc = Some acc_t" by blast
      moreover from g2 c(2) have "h_abs k g v1 = Some (remove_descriptions tv)" by blast
      ultimately show "h_abs_items k g ?acc2 = Some (AList.update key (remove_descriptions tv) acc_t)"
        by (rule abs_items_update)
    qed
    from Cons.IH[OF kt(2) a Cons.prems(3) b c2 d] obtain h' acc' where
      "h_remove_descriptions_items k ?h2 r rest = Some h'" "h' ! r = ODict acc'"
      "\<forall>g. agrees (Suc r) (length h') h' g \<longrightarrow> h_abs_items k g acc' =
          Some (remove_descriptions_items kts' (AList.update key (remove_descriptions tv) acc_t))"
      by blast
    with False p kt(3) c(1) show ?thesis by auto
  qed
qed

lemma h_rd_list_refines:
  assumes IH: "refines_remove_descriptions k"
  shows "h_abs_list k h0 xs = Some ts \<Longrightarrow> extends h0 h \<Longrightarrow> length h0 \<le> r \<Longrightarrow>
    r < length h \<Longrightarrow> h ! r = OList acc \<Longrightarrow>
    (\<forall>g. agrees (Suc r) (length h) h g \<longrightarrow> h_abs_list k g acc = Some acc_t) \<Longrightarrow>
    \<exists>h' acc'. h_remove_descriptions_list k h r xs = Some h' \<and> h' ! r = OList acc' \<and>
      (\<forall>g. agrees (Suc r) (length h') h' g \<longrightarrow>
         h_abs_list k g acc' = Some (acc_t @ map remove_descriptions ts))"
proof (induction xs arbitrary: h acc acc_t ts)
  case Nil
  then show ?case by auto
next
  case (Cons x rest)
  from Cons.prems(1) obtain tv ts' where kt:
    "h_abs k h0 x = Some tv" "h_abs_list k h0 rest = Some ts'" "ts = tv # ts'"
    by (auto split: option.splits)
  from IH kt(1) Cons.prems(2) obtain v1 h1 where c:
    "h_remove_descriptions k h x = Some (v1, h1)"
    "\<forall>g. agrees (length h) (length h1) h1 g \<longrightarrow> h_abs k g v1 = Some (remove_descriptions tv)"
    unfolding refines_remove_descriptions_def by blast
  from h_rd_frame(1)[OF c(1)] have e: "extends h h1" .
  let ?h2 = "list_append h1 r v1"
  let ?acc2 = "acc @ [v1]"
  have r1: "r < length h1" "h1 ! r = OList acc"
    using e Cons.prems(4,5) by (auto simp: extends_iff)
  have a: "extends h0 ?h2"
    using Cons.prems(2,3) e by (auto simp: extends_iff list_append_other)
  have b: "r < length ?h2" using r1 by simp
  have c2: "?h2 ! r = OList ?acc2" using r1 by (rule list_append_at)
  have d: "\<forall>g. agrees (Suc r) (length ?h2) ?h2 g \<longrightarrow>
      h_abs_list k g ?acc2 = Some (acc_t @ [remove_descriptions tv])"
  proof (intro allI impI)
    fix g assume g: "agrees (Suc r) (length ?h2) ?h2 g"
    have g1: "agrees (Suc r) (length h) h g"
      using g e Cons.prems(4) by (auto simp: agrees_def extends_iff list_append_other)
    have g2: "agrees (length h) (length h1) h1 g"
      using g Cons.prems(4) by (auto simp: agrees_def list_append_other)
    from g1 Cons.prems(6) have "h_abs_list k g acc = Some acc_t" by blast
    moreover from g2 c(2) have "h_abs k g v1 = Some (remove_descriptions tv)" by blast
    ultimately show "h_abs_list k g ?acc2 = Some (acc_t @ [remove_descriptions tv])"
      by (rule abs_list_append)
  qed
  from Cons.IH[OF kt(2) a Cons.prems(3) b c2 d] obtain h' acc' where
    "h_remove_descriptions_list k ?h2 r rest = Some h'" "h' ! r = OList acc'"
    "\<forall>g. agrees (Suc r) (length h') h' g \<longrightarrow> h_abs_list k g acc' =
        Some ((acc_t @ [remove_descriptions tv]) @ map remove_descriptions ts')"
    by blast
  with kt(3) c(1) show ?case by auto
qed

lemma h_rd_refines_aux: "refines_remove_descriptions k"
proof (induction k)
  case 0
  show ?case by (simp add: refines_remove_descriptions_def)
next
  case (Suc k)
  show ?case unfolding refines_remove_descriptions_def
  proof (intro allI impI)
    fix h0 h v t
    assume abs: "h_abs (Suc k) h0 v = Some t" and ext: "extends h0 h"
    show "\<exists>v' h'. h_remove_descriptions (Suc k) h v = Some (v', h') \<and>
        (\<forall>g. agrees (length h) (length h') h' g \<longrightarrow>
           h_abs (Suc k) g v' = Some (remove_descriptions t))"
    proof (cases "\<exists>a. v = VRef a")
      case False
      then have nr: "\<forall>a. v \<noteq> VRef a" by simp
      have "h_remove_descriptions (Suc k) h v = Some (v, h)"
        using nr by (cases v) auto
      moreover have "is_scalar t" "\<And>g. h_abs (Suc k) g v = Some t"
        using abs_scalar[OF abs nr] by auto
      ultimately show ?thesis by (auto simp: rd_scalar)
    next
      case True
      then obtain a where v: "v = VRef a" by blast
      from abs v have a0: "a < length h0" by (auto split: if_splits)
      with ext have a: "a < length h" "h ! a = h0 ! a" by (auto simp: extends_iff)
      let ?r = "length h"
      have len0: "length h0 \<le> ?r" using ext by (simp add: extends_iff)
      show ?thesis
      proof (cases "h0 ! a")
        case (ODict kvs)
        with abs v a0 obtain kts where kts: "h_abs_items k h0 kvs = Some kts" "t = JDict kts"
          by auto
        have "\<exists>h' acc'. h_remove_descriptions_items k (h @ [ODict []]) ?r kvs = Some h' \<and>
            h' ! ?r = ODict acc' \<and>
            (\<forall>g. agrees (Suc ?r) (length h') h' g \<longrightarrow>
               h_abs_items k g acc' = Some (remove_descriptions_items kts []))"
        proof (rule h_rd_items_refines[OF Suc kts(1) _ len0])
          show "extends h0 (h @ [ODict []])"
            using ext extends_append extends_trans by blast
          show "?r < length (h @ [ODict []])" by simp
          show "(h @ [ODict []]) ! ?r = ODict []" by simp
          show "\<forall>g. agrees (Suc ?r) (length (h @ [ODict []])) (h @ [ODict []]) g \<longrightarrow>
              h_abs_items k g [] = Some []" by simp
        qed
        then obtain h' acc' where l:
          "h_remove_descriptions_items k (h @ [ODict []]) ?r kvs = Some h'"
          "h' ! ?r = ODict acc'"
          "\<forall>g. agrees (Suc ?r) (length h') h' g \<longrightarrow>
               h_abs_items k g acc' = Some (remove_descriptions_items kts [])"
          by blast
        from h_rd_frame(2)[OF l(1)] have len: "?r < length h'" by simp
        have run: "h_remove_descriptions (Suc k) h v = Some (VRef ?r, h')"
          using v a ODict l(1) by simp
        have "h_abs (Suc k) g (VRef ?r) = Some (remove_descriptions t)"
          if g: "agrees ?r (length h') h' g" for g
        proof -
          have "?r < length g" "g ! ?r = ODict acc'"
            using g len l(2) by (auto simp: agrees_def)
          moreover have "agrees (Suc ?r) (length h') h' g" using g by (auto simp: agrees_def)
          ultimately show ?thesis using l(3) kts(2) by simp
        qed
        with run show ?thesis by blast
      next
        case (OList xs)
        with abs v a0 obtain ts where ts: "h_abs_list k h0 xs = Some ts" "t = JList ts"
          by auto
        have "\<exists>h' acc'. h_remove_descriptions_list k (h @ [OList []]) ?r xs = Some h' \<and>
            h' ! ?r = OList acc' \<and>
            (\<forall>g. agrees (Suc ?r) (length h') h' g \<longrightarrow>
               h_abs_list k g acc' = Some ([] @ map remove_descriptions ts))"
        proof (rule h_rd_list_refines[OF Suc ts(1) _ len0])
          show "extends h0 (h @ [OList []])"
            using ext extends_append extends_trans by blast
          show "?r < length (h @ [OList []])" by simp
          show "(h @ [OList []]) ! ?r = OList []" by simp
          show "\<forall>g. agrees (Suc ?r) (length (h @ [OList []])) (h @ [OList []]) g \<longrightarrow>
              h_abs_list k g [] = Some []" by simp
        qed
        then obtain h' acc' where l:
          "h_remove_descriptions_list k (h @ [OList []]) ?r xs = Some h'"
          "h' ! ?r = OList acc'"
          "\<forall>g. agrees (Suc ?r) (length h') h' g \<longrightarrow>
               h_abs_list k g acc' = Some (map remove_descriptions ts)"
          by auto
        from h_rd_frame(3)[OF l(1)] have len: "?r < length h'" by simp
        have run: "h_remove_descriptions (Suc k) h v = Some (VRef ?r, h')"
          using v a OList l(1) by simp
        have "h_abs (Suc k) g (VRef ?r) = Some (remove_descriptions t)"
          if g: "agrees ?r (length h') h' g" for g
        proof -
          have "?r < length g" "g ! ?r = OList acc'"
            using g len l(2) by (auto simp: agrees_def)
          moreover have "agrees (Suc ?r) (length h') h' g" using g by (auto simp: agrees_def)
          ultimately show ?thesis using l(3) ts(2) by (simp add: rd_list_map)
        qed
        with run show ?thesis by blast
      qed
    qed
  qed
qed

lemma agrees_self: "agrees lo (length h) h h"
  by (simp add: agrees_def)

lemma h_rd_refines:
  assumes "h_abs k h v = Some t"
  shows "\<exists>v' h'. h_remove_descriptions k h v = Some (v', h') \<and> extends h h' \<and>
    h_abs k h' v' = Some (remove_descriptions t) \<and> h_abs k h' v = Some t"
proof -
  from h_rd_refines_aux[of k] assms extends_refl[of h]
  obtain v' h' where r: "h_remove_descriptions k h v = Some (v', h')"
    "\<forall>g. agrees (length h) (length h') h' g \<longrightarrow> h_abs k g v' = Some (remove_descriptions t)"
    unfolding refines_remove_descriptions_def by blast
  from h_rd_frame(1)[OF r(1)] have e: "extends h h'" .
  from r(2) agrees_self have "h_abs k h' v' = Some (remove_descriptions t)" by blast
  moreover from abs_extends(1)[OF assms e] have "h_abs k h' v = Some t" .
  ultimately show ?thesis using r(1) e by blast
qed

lemma h_fbe_frame:
  "h_filter_by_endpoint_type n h v m = Some (v', h') \<Longrightarrow> extends h h'"
  "h_filter_by_endpoint_type_items n h r kvs m = Some h' \<Longrightarrow>
     length h \<le> length h' \<and> (\<forall>a < length h. a \<noteq> r \<longrightarrow> h' ! a = h ! a)"
  "h_filter_by_endpoint_type_list n h r xs m = Some h' \<Longrightarrow>
     length h \<le> length h' \<and> (\<forall>a < length h. a \<noteq> r \<longrightarrow> h' ! a = h ! a)"
proof (induction n h v m and n h r kvs m and n h r xs m arbitrary: v' h' and h' and h'
    rule: h_filter_by_endpoint_type_h_filter_by_endpoint_type_items_h_filter_by_endpoint_type_list.induct)
  case (1 h data m)
  then show ?case by simp
next
  case (2 n h a m)
  have a: "a < length h" using "2.prems" by (auto split: if_splits)
  show ?case
  proof (cases "h ! a")
    case (ODict d)
    show ?thesis
    proof (cases "h_excluded h d m")
      case True
      with "2.prems" a ODict show ?thesis by (simp add: extends_refl)
    next
      case False
      with "2.prems" a ODict obtain hh where hh:
        "h_filter_by_endpoint_type_items n (h @ [ODict []]) (length h) d m = Some hh" "h' = hh"
        by (auto split: option.splits)
      from "2.IH"(1)[OF a ODict False hh(1)] hh(2) show ?thesis
        by (auto simp: extends_iff nth_append)
    qed
  next
    case (OList xs)
    with "2.prems" a obtain hh where hh:
      "h_filter_by_endpoint_type_list n (h @ [OList []]) (length h) xs m = Some hh" "h' = hh"
      by (auto split: option.splits)
    from "2.IH"(2)[OF a OList hh(1)] hh(2) show ?thesis
      by (auto simp: extends_iff nth_append)
  qed
next
  case (5 n h result key val rest m)
  from "5.prems" obtain v1 h1 where s: "h_filter_by_endpoint_type n h val m = Some (v1, h1)"
    "h_filter_by_endpoint_type_items n
       (if v1 \<noteq> VNone then dict_store h1 result key v1 else h1) result rest m = Some h'"
    by (auto split: option.splits)
  from "5.IH"(1)[OF s(1)] have e: "extends h h1" .
  from "5.IH"(2)[OF s(1) refl s(2)] e show ?case
    by (auto simp: extends_iff dict_store_other split: if_splits)
next
  case (7 n h result x xs m)
  from "7.prems" obtain v1 h1 where s: "h_filter_by_endpoint_type n h x m = Some (v1, h1)"
    "h_filter_by_endpoint_type_list n
       (if v1 \<noteq> VNone then list_append h1 result v1 else h1) result xs m = Some h'"
    by (auto split: option.splits)
  from "7.IH"(1)[OF s(1)] have e: "extends h h1" .
  from "7.IH"(2)[OF s(1) refl s(2)] e show ?case
    by (auto simp: extends_iff list_append_other split: if_splits)
qed (auto simp: extends_refl)

lemma abs_items_lookup:
  "h_abs_items k h d = Some kts \<Longrightarrow>
   (case map_of d key of
      None \<Rightarrow> map_of kts key = None
    | Some v \<Rightarrow> \<exists>tv. h_abs k h v = Some tv \<and> map_of kts key = Some tv)"
proof (induction d arbitrary: kts)
  case Nil
  then show ?case by simp
next
  case (Cons p d)
  obtain k' v' where p: "p = (k', v')" by (cases p)
  with Cons show ?case by (auto split: option.splits)
qed

lemma abs_items_has_key:
  "h_abs_items k h d = Some kts \<Longrightarrow> has_key kts key = has_key d key"
  using abs_items_lookup[of k h d kts key]
  by (auto simp: has_key_def split: option.splits)

lemma abs_items_empty: "h_abs_items k h d = Some kts \<Longrightarrow> (d = []) = (kts = [])"
  by (cases d) (auto split: option.splits)

lemma abs_list_empty: "h_abs_list k h xs = Some ts \<Longrightarrow> (xs = []) = (ts = [])"
  by (cases xs) (auto split: option.splits)

lemma abs_none: "h_abs k h v = Some t \<Longrightarrow> (v = VNone) = (t = JNone)"
  by (cases k; cases v) (auto split: if_splits obj.splits)

lemma abs_str: "h_abs k h v = Some t \<Longrightarrow> (v = VStr s) = (t = JStr s)"
  by (cases k; cases v) (auto split: if_splits obj.splits)

lemma abs_truthy: "h_abs k h v = Some t \<Longrightarrow> h_truthy h v = truthy t"
proof (cases k)
  case 0
  assume "h_abs k h v = Some t"
  with 0 show ?thesis by simp
next
  case (Suc k')
  assume a: "h_abs k h v = Some t"
  show ?thesis
  proof (cases v)
    case (VRef b)
    with a Suc show ?thesis
      by (auto split: if_splits obj.splits dest: abs_items_empty abs_list_empty)
  qed (use a Suc in auto)
qed

lemma abs_excluded:
  assumes "h_abs_items k h0 d = Some kts" "extends h0 h"
  shows "h_excluded h d m = (is_request_item kts \<and> request_method kts \<noteq> JStr m)"
proof (cases "map_of d ''request''")
  case None
  with abs_items_lookup[OF assms(1), of "''request''"]
  have "map_of kts ''request'' = None" by simp
  with None show ?thesis
    by (simp add: h_excluded_def h_is_request_item_def is_request_item_def has_key_def)
next
  case (Some v)
  with abs_items_lookup[OF assms(1), of "''request''"]
  obtain tv where tv: "h_abs k h0 v = Some tv" "map_of kts ''request'' = Some tv" by auto
  show ?thesis
  proof (cases "\<exists>b. v = VRef b")
    case False
    then have "\<forall>b. v \<noteq> VRef b" by simp
    from abs_scalar[OF tv(1) this] have "is_scalar tv" by simp
    then have "is_request_item kts = False"
      using tv(2) by (cases tv) (auto simp: is_request_item_def dict_get_def)
    moreover have "h_is_request_item h d = False"
      using Some False by (cases v) (auto simp: h_is_request_item_def dict_get_def)
    ultimately show ?thesis by (simp add: h_excluded_def)
  next
    case True
    then obtain b where b: "v = VRef b" by blast
    from tv(1) b obtain k' where k': "k = Suc k'" "b < length h0"
      by (cases k) (auto split: if_splits)
    with assms(2) have hb: "b < length h" "h ! b = h0 ! b" by (auto simp: extends_iff)
    show ?thesis
    proof (cases "h0 ! b")
      case (OList xs)
      with tv(1) b k' obtain ts where "tv = JList ts" by auto
      then have "is_request_item kts = False"
        using tv(2) by (simp add: is_request_item_def dict_get_def)
      moreover have "h_is_request_item h d = False"
        using Some b hb OList by (simp add: h_is_request_item_def dict_get_def)
      ultimately show ?thesis by (simp add: h_excluded_def)
    next
      case (ODict r)
      with tv(1) b k' obtain rt where rt: "h_abs_items k' h0 r = Some rt" "tv = JDict rt"
        by auto
      have hk: "has_key rt ''method'' = has_key r ''method''"
        using rt(1) by (rule abs_items_has_key)
      have i1: "is_request_item kts = has_key r ''method''"
        using tv(2) rt(2) hk by (simp add: is_request_item_def dict_get_def has_key_def)
      have i2: "h_is_request_item h d = has_key r ''method''"
        using Some b hb ODict by (simp add: h_is_request_item_def dict_get_def has_key_def)
      have m1: "request_method kts = dict_get rt ''method'' JNone"
        using tv(2) rt(2) by (simp add: request_method_def dict_get_def)
      have m2: "h_request_method h d = dict_get r ''method'' VNone"
        using Some b hb ODict by (simp add: h_request_method_def dict_get_def dict_at_def)
      show ?thesis
      proof (cases "map_of r ''method''")
        case None
        then show ?thesis using i1 i2 by (simp add: h_excluded_def has_key_def)
      next
        case (Some x)
        with abs_items_lookup[OF rt(1), of "''method''"]
        obtain tx where tx: "h_abs k' h0 x = Some tx" "map_of rt ''method'' = Some tx" by auto
        from abs_str[OF tx(1), of m] have "(x = VStr m) = (tx = JStr m)" .
        then show ?thesis
          using i1 i2 m1 m2 Some tx(2) by (simp add: h_excluded_def dict_get_def)
      qed
    qed
  qed
qed

lemma abs_dict_result:
  assumes "h_abs_items k h0 d = Some kts" "h' ! r = ODict acc'"
    "h_abs_items k h' acc' = Some res"
  shows "(h_dict_result h' r d = VNone) =
           (has_key kts ''item'' \<and> \<not> truthy (dict_get res ''item'' (JList [])))"
    and "h_dict_result h' r d = VNone \<or> h_dict_result h' r d = VRef r"
proof -
  have k1: "has_key kts ''item'' = has_key d ''item''"
    using assms(1) by (rule abs_items_has_key)
  have da: "dict_at h' r = acc'" using assms(2) by (simp add: dict_at_def)
  have "(has_key acc' ''item'' \<and> h_truthy h' (dict_get acc' ''item'' VNone)) =
      truthy (dict_get res ''item'' (JList []))"
  proof (cases "map_of acc' ''item''")
    case None
    with abs_items_lookup[OF assms(3), of "''item''"] have "map_of res ''item'' = None" by simp
    with None show ?thesis by (simp add: has_key_def dict_get_def)
  next
    case (Some v)
    with abs_items_lookup[OF assms(3), of "''item''"]
    obtain tv where tv: "h_abs k h' v = Some tv" "map_of res ''item'' = Some tv" by auto
    from abs_truthy[OF tv(1)] Some tv(2) show ?thesis by (simp add: has_key_def dict_get_def)
  qed
  then show "(h_dict_result h' r d = VNone) =
           (has_key kts ''item'' \<and> \<not> truthy (dict_get res ''item'' (JList [])))"
    using k1 da by (simp add: h_dict_result_def)
  show "h_dict_result h' r d = VNone \<or> h_dict_result h' r d = VRef r"
    by (simp add: h_dict_result_def)
qed

lemma h_fbe_items_refines:
  assumes IH: "refines_filter_by_endpoint_type k m"
  shows "h_abs_items k h0 kvs = Some kts \<Longrightarrow> extends h0 h \<Longrightarrow> length h0 \<le> r \<Longrightarrow>
    r < length h \<Longrightarrow> h ! r = ODict acc \<Longrightarrow>
    (\<forall>g. agrees (Suc r) (length h) h g \<longrightarrow> h_abs_items k g acc = Some acc_t) \<Longrightarrow>
    \<exists>h' acc'. h_filter_by_endpoint_type_items k h r kvs m = Some h' \<and> h' ! r = ODict acc' \<and>
      (\<forall>g. agrees (Suc r) (length h') h' g \<longrightarrow>
         h_abs_items k g acc' = Some (filter_by_endpoint_type_items kts m acc_t))"
proof (induction kvs arbitrary: h acc acc_t kts)
  case Nil
  then show ?case by auto
next
  case (Cons p rest)
  obtain key val where p: "p = (key, val)" by (cases p)
  from Cons.prems(1) p obtain tv kts' where kt:
    "h_abs k h0 val = Some tv" "h_abs_items k h0 rest = Some kts'" "kts = (key, tv) # kts'"
    by (auto split: option.splits)
  from IH kt(1) Cons.prems(2) obtain v1 h1 where c:
    "h_filter_by_endpoint_type k h val m = Some (v1, h1)"
    "\<forall>g. agrees (length h) (length h1) h1 g \<longrightarrow>
        h_abs k g v1 = Some (filter_by_endpoint_type tv m)"
    unfolding refines_filter_by_endpoint_type_def by blast
  from h_fbe_frame(1)[OF c(1)] have e: "extends h h1" .
  have r1: "r < length h1" "h1 ! r = ODict acc"
    using e Cons.prems(4,5) by (auto simp: extends_iff)
  from c(2) agrees_self have "h_abs k h1 v1 = Some (filter_by_endpoint_type tv m)" by blast
  from abs_none[OF this] have none: "(v1 = VNone) = (filter_by_endpoint_type tv m = JNone)" .
  show ?case
  proof (cases "v1 = VNone")
    case True
    have a: "extends h0 h1" using Cons.prems(2) e by (rule extends_trans)
    have d: "\<forall>g. agrees (Suc r) (length h1) h1 g \<longrightarrow> h_abs_items k g acc = Some acc_t"
    proof (intro allI impI)
      fix g assume g: "agrees (Suc r) (length h1) h1 g"
      have "agrees (Suc r) (length h) h g"
        using g e by (auto simp: agrees_def extends_iff)
      with Cons.prems(6) show "h_abs_items k g acc = Some acc_t" by blast
    qed
    from Cons.IH[OF kt(2) a Cons.prems(3) r1 d] obtain h' acc' where
      "h_filter_by_endpoint_type_items k h1 r rest m = Some h'" "h' ! r = ODict acc'"
      "\<forall>g. agrees (Suc r) (length h') h' g \<longrightarrow> h_abs_items k g acc' =
          Some (filter_by_endpoint_type_items kts' m acc_t)"
      by blast
    with True none p kt(3) c(1) show ?thesis by (auto simp: Let_def)
  next
    case False
    let ?h2 = "dict_store h1 r key v1"
    let ?acc2 = "AList.update key v1 acc"
    let ?tv = "filter_by_endpoint_type tv m"
    have a: "extends h0 ?h2"
      using Cons.prems(2,3) e by (auto simp: extends_iff dict_store_other)
    have b: "r < length ?h2" using r1 by simp
    have c2: "?h2 ! r = ODict ?acc2" using r1 by (rule dict_store_at)
    have d: "\<forall>g. agrees (Suc r) (length ?h2) ?h2 g \<longrightarrow>
        h_abs_items k g ?acc2 = Some (AList.update key ?tv acc_t)"
    proof (intro allI impI)
      fix g assume g: "agrees (Suc r) (length ?h2) ?h2 g"
      have g1: "agrees (Suc r) (length h) h g"
        using g e Cons.prems(4) by (auto simp: agrees_def extends_iff dict_store_other)
      have g2: "agrees (length h) (length h1) h1 g"
        using g Cons.prems(4) by (auto simp: agrees_def dict_store_other)
      from g1 Cons.prems(6) have "h_abs_items k g acc = Some acc_t" by blast
      moreover from g2 c(2) have "h_abs k g v1 = Some ?tv" by blast
      ultimately show "h_abs_items k g ?acc2 = Some (AList.update key ?tv acc_t)"
        by (rule abs_items_update)
    qed
    from Cons.IH[OF kt(2) a Cons.prems(3) b c2 d] obtain h' acc' where
      "h_filter_by_endpoint_type_items k ?h2 r rest m = Some h'" "h' ! r = ODict acc'"
      "\<forall>g. agrees (Suc r) (length h') h' g \<longrightarrow> h_abs_items k g acc' =
          Some (filter_by_endpoint_type_items kts' m (AList.update key ?tv acc_t))"
      by blast
    with False none p kt(3) c(1) show ?thesis by (auto simp: Let_def)
  qed
qed

lemma h_fbe_list_refines:
  assumes IH: "refines_filter_by_endpoint_type k m"
  shows "h_abs_list k h0 xs = Some ts \<Longrightarrow> extends h0 h \<Longrightarrow> length h0 \<le> r \<Longrightarrow>
    r < length h \<Longrightarrow> h ! r = OList acc \<Longrightarrow>
    (\<forall>g. agrees (Suc r) (length h) h g \<longrightarrow> h_abs_list k g acc = Some acc_t) \<Longrightarrow>
    \<exists>h' acc'. h_filter_by_endpoint_type_list k h r xs m = Some h' \<and> h' ! r = OList acc' \<and>
      (\<forall>g. agrees (Suc r) (length h') h' g \<longrightarrow>
         h_abs_list k g acc' = Some (acc_t @ filter_by_endpoint_type_list ts m))"
proof (induction xs arbitrary: h acc acc_t ts)
  case Nil
  then show ?case by auto
next
  case (Cons x rest)
  from Cons.prems(1) obtain tv ts' where kt:
    "h_abs k h0 x = Some tv" "h_abs_list k h0 rest = Some ts'" "ts = tv # ts'"
    by (auto split: option.splits)
  from IH kt(1) Cons.prems(2) obtain v1 h1 where c:
    "h_filter_by_endpoint_type k h x m = Some (v1, h1)"
    "\<forall>g. agrees (length h) (length h1) h1 g \<longrightarrow>
        h_abs k g v1 = Some (filter_by_endpoint_type tv m)"
    unfolding refines_filter_by_endpoint_type_def by blast
  from h_fbe_frame(1)[OF c(1)] have e: "extends h h1" .
  have r1: "r < length h1" "h1 ! r = OList acc"
    using e Cons.prems(4,5) by (auto simp: extends_iff)
  from c(2) agrees_self have "h_abs k h1 v1 = Some (filter_by_endpoint_type tv m)" by blast
  from abs_none[OF this] have none: "(v1 = VNone) = (filter_by_endpoint_type tv m = JNone)" .
  show ?case
  proof (cases "v1 = VNone")
    case True
    have a: "extends h0 h1" using Cons.prems(2) e by (rule extends_trans)
    have d: "\<forall>g. agrees (Suc r) (length h1) h1 g \<longrightarrow> h_abs_list k g acc = Some acc_t"
    proof (intro allI impI)
      fix g assume g: "agrees (Suc r) (length h1) h1 g"
      have "agrees (Suc r) (length h) h g"
        using g e by (auto simp: agrees_def extends_iff)
      with Cons.prems(6) show "h_abs_list k g acc = Some acc_t" by blast
    qed
    from Cons.IH[OF kt(2) a Cons.prems(3) r1 d] obtain h' acc' where
      "h_filter_by_endpoint_type_list k h1 r rest m = Some h'" "h' ! r = OList acc'"
      "\<forall>g. agrees (Suc r) (length h') h' g \<longrightarrow> h_abs_list k g acc' =
          Some (acc_t @ filter_by_endpoint_type_list ts' m)"
      by blast
    with True none kt(3) c(1) show ?thesis by (auto simp: Let_def)
  next
    case False
    let ?h2 = "list_append h1 r v1"
    let ?acc2 = "acc @ [v1]"
    let ?tv = "filter_by_endpoint_type tv m"
    have a: "extends h0 ?h2"
      using Cons.prems(2,3) e by (auto simp: extends_iff list_append_other)
    have b: "r < length ?h2" using r1 by simp
    have c2: "?h2 ! r = OList ?acc2" using r1 by (rule list_append_at)
    have d: "\<forall>g. agrees (Suc r) (length ?h2) ?h2 g \<longrightarrow>
        h_abs_list k g ?acc2 = Some (acc_t @ [?tv])"
    proof (intro allI impI)
      fix g assume g: "agrees (Suc r) (length ?h2) ?h2 g"
      have g1: "agrees (Suc r) (length h) h g"
        using g e Cons.prems(4) by (auto simp: agrees_def extends_iff list_append_other)
      have g2: "agrees (length h) (length h1) h1 g"
        using g Cons.prems(4) by (auto simp: agrees_def list_append_other)
      from g1 Cons.prems(6) have "h_abs_list k g acc = Some acc_t" by blast
      moreover from g2 c(2) have "h_abs k g v1 = Some ?tv" by blast
      ultimately show "h_abs_list k g ?acc2 = Some (acc_t @ [?tv])"
        by (rule abs_list_append)
    qed
    from Cons.IH[OF kt(2) a Cons.prems(3) b c2 d] obtain h' acc' where
      "h_filter_by_endpoint_type_list k ?h2 r rest m = Some h'" "h' ! r = OList acc'"
      "\<forall>g. agrees (Suc r) (length h') h' g \<longrightarrow> h_abs_list k g acc' =
          Some ((acc_t @ [?tv]) @ filter_by_endpoint_type_list ts' m)"
      by blast
    with False none kt(3) c(1) show ?thesis by (auto simp: Let_def)
  qed
qed

lemma fbe_scalar: "is_scalar t \<Longrightarrow> filter_by_endpoint_type t m = t"
  by (cases t) auto

lemma h_fbe_refines_aux: "refines_filter_by_endpoint_type k m"
proof (induction k)
  case 0
  show ?case by (simp add: refines_filter_by_endpoint_type_def)
next
  case (Suc k)
  show ?case unfolding refines_filter_by_endpoint_type_def
  proof (intro allI impI)
    fix h0 h v t
    assume abs: "h_abs (Suc k) h0 v = Some t" and ext: "extends h0 h"
    show "\<exists>v' h'. h_filter_by_endpoint_type (Suc k) h v m = Some (v', h') \<and>
        (\<forall>g. agrees (length h) (length h') h' g \<longrightarrow>
           h_abs (Suc k) g v' = Some (filter_by_endpoint_type t m))"
    proof (cases "\<exists>a. v = VRef a")
      case False
      then have nr: "\<forall>a. v \<noteq> VRef a" by simp
      have "h_filter_by_endpoint_type (Suc k) h v m = Some (v, h)"
        using nr by (cases v) auto
      moreover have "is_scalar t" "\<And>g. h_abs (Suc k) g v = Some t"
        using abs_scalar[OF abs nr] by auto
      ultimately show ?thesis by (auto simp: fbe_scalar)
    next
      case True
      then obtain a where v: "v = VRef a" by blast
      from abs v have a0: "a < length h0" by (auto split: if_splits)
      with ext have a: "a < length h" "h ! a = h0 ! a" by (auto simp: extends_iff)
      let ?r = "length h"
      have len0: "length h0 \<le> ?r" using ext by (simp add: extends_iff)
      show ?thesis
      proof (cases "h0 ! a")
        case (ODict d)
        with abs v a0 obtain kts where kts: "h_abs_items k h0 d = Some kts" "t = JDict kts"
          by auto
        have ex: "h_excluded h d m = (is_request_item kts \<and> request_method kts \<noteq> JStr m)"
          using kts(1) ext by (rule abs_excluded)
        show ?thesis
        proof (cases "h_excluded h d m")
          case True
          then have "h_filter_by_endpoint_type (Suc k) h v m = Some (VNone, h)"
            using v a ODict by simp
          moreover have "filter_by_endpoint_type t m = JNone"
            using True ex kts(2) by simp
          ultimately show ?thesis by simp
        next
          case False
          have "\<exists>h' acc'. h_filter_by_endpoint_type_items k (h @ [ODict []]) ?r d m = Some h' \<and>
              h' ! ?r = ODict acc' \<and>
              (\<forall>g. agrees (Suc ?r) (length h') h' g \<longrightarrow>
                 h_abs_items k g acc' = Some (filter_by_endpoint_type_items kts m []))"
          proof (rule h_fbe_items_refines[OF Suc kts(1) _ len0])
            show "extends h0 (h @ [ODict []])"
              using ext extends_append extends_trans by blast
            show "?r < length (h @ [ODict []])" by simp
            show "(h @ [ODict []]) ! ?r = ODict []" by simp
            show "\<forall>g. agrees (Suc ?r) (length (h @ [ODict []])) (h @ [ODict []]) g \<longrightarrow>
                h_abs_items k g [] = Some []" by simp
          qed
          then obtain h' acc' where l:
            "h_filter_by_endpoint_type_items k (h @ [ODict []]) ?r d m = Some h'"
            "h' ! ?r = ODict acc'"
            "\<forall>g. agrees (Suc ?r) (length h') h' g \<longrightarrow>
                 h_abs_items k g acc' = Some (filter_by_endpoint_type_items kts m [])"
            by blast
          let ?res = "filter_by_endpoint_type_items kts m []"
          from h_fbe_frame(2)[OF l(1)] have len: "?r < length h'" by simp
          from l(3) agrees_self have here: "h_abs_items k h' acc' = Some ?res" by blast
          note dr = abs_dict_result[OF kts(1) l(2) here]
          have run: "h_filter_by_endpoint_type (Suc k) h v m = Some (h_dict_result h' ?r d, h')"
            using v a ODict False l(1) by simp
          have nex: "\<not> (is_request_item kts \<and> request_method kts \<noteq> JStr m)"
            using False ex by simp
          have pure: "filter_by_endpoint_type t m =
              (if has_key kts ''item'' \<and> \<not> truthy (dict_get ?res ''item'' (JList []))
               then JNone else JDict ?res)"
            unfolding kts(2) using nex by (auto simp: Let_def)
          have "h_abs (Suc k) g (h_dict_result h' ?r d) = Some (filter_by_endpoint_type t m)"
            if g: "agrees ?r (length h') h' g" for g
          proof (cases "h_dict_result h' ?r d = VNone")
            case True
            with dr(1) pure show ?thesis by simp
          next
            case False
            with dr(2) have vr: "h_dict_result h' ?r d = VRef ?r" by simp
            have "?r < length g" "g ! ?r = ODict acc'"
              using g len l(2) by (auto simp: agrees_def)
            moreover have "agrees (Suc ?r) (length h') h' g" using g by (auto simp: agrees_def)
            ultimately have "h_abs (Suc k) g (VRef ?r) = Some (JDict ?res)" using l(3) by simp
            with vr False dr(1) pure show ?thesis by simp
          qed
          with run show ?thesis by blast
        qed
      next
        case (OList xs)
        with abs v a0 obtain ts where ts: "h_abs_list k h0 xs = Some ts" "t = JList ts"
          by auto
        have "\<exists>h' acc'. h_filter_by_endpoint_type_list k (h @ [OList []]) ?r xs m = Some h' \<and>
            h' ! ?r = OList acc' \<and>
            (\<forall>g. agrees (Suc ?r) (length h') h' g \<longrightarrow>
               h_abs_list k g acc' = Some ([] @ filter_by_endpoint_type_list ts m))"
        proof (rule h_fbe_list_refines[OF Suc ts(1) _ len0])
          show "extends h0 (h @ [OList []])"
            using ext extends_append extends_trans by blast
          show "?r < length (h @ [OList []])" by simp
          show "(h @ [OList []]) ! ?r = OList []" by simp
          show "\<forall>g. agrees (Suc ?r) (length (h @ [OList []])) (h @ [OList []]) g \<longrightarrow>
              h_abs_list k g [] = Some []" by simp
        qed
        then obtain h' acc' where l:
          "h_filter_by_endpoint_type_list k (h @ [OList []]) ?r xs m = Some h'"
          "h' ! ?r = OList acc'"
          "\<forall>g. agrees (Suc ?r) (length h') h' g \<longrightarrow>
               h_abs_list k g acc' = Some (filter_by_endpoint_type_list ts m)"
          by auto
        let ?res = "filter_by_endpoint_type_list ts m"
        from h_fbe_frame(3)[OF l(1)] have len: "?r < length h'" by simp
        from l(3) agrees_self have here: "h_abs_list k h' acc' = Some ?res" by blast
        from abs_list_empty[OF here] have emp: "(acc' = []) = (?res = [])" .
        have run: "h_filter_by_endpoint_type (Suc k) h v m = Some (h_list_result h' ?r, h')"
          using v a OList l(1) by simp
        have lr: "h_list_result h' ?r = (if acc' \<noteq> [] then VRef ?r else VNone)"
          using l(2) by (simp add: h_list_result_def)
        have pure: "filter_by_endpoint_type t m = (if ?res \<noteq> [] then JList ?res else JNone)"
          using ts(2) by (simp add: Let_def)
        have "h_abs (Suc k) g (h_list_result h' ?r) = Some (filter_by_endpoint_type t m)"
          if g: "agrees ?r (length h') h' g" for g
        proof (cases "acc' = []")
          case True
          with lr emp pure show ?thesis by simp
        next
          case False
          have "?r < length g" "g ! ?r = OList acc'"
            using g len l(2) by (auto simp: agrees_def)
          moreover have "agrees (Suc ?r) (length h') h' g" using g by (auto simp: agrees_def)
          ultimately have "h_abs (Suc k) g (VRef ?r) = Some (JList ?res)" using l(3) by simp
          with False lr emp pure show ?thesis by simp
        qed
        with run show ?thesis by blast
      qed
    qed
  qed
qed

lemma h_fbe_refines:
  assumes "h_abs k h v = Some t"
  shows "\<exists>v' h'. h_filter_by_endpoint_type k h v m = Some (v', h') \<and> extends h h' \<and>
    h_abs k h' v' = Some (filter_by_endpoint_type t m) \<and> h_abs k h' v = Some t"
proof -
  from h_fbe_refines_aux[of k m] assms extends_refl[of h]
  obtain v' h' where r: "h_filter_by_endpoint_type k h v m = Some (v', h')"
    "\<forall>g. agrees (length h) (length h') h' g \<longrightarrow>
       h_abs k g v' = Some (filter_by_endpoint_type t m)"
    unfolding refines_filter_by_endpoint_type_def by blast
  from h_fbe_frame(1)[OF r(1)] have e: "extends h h'" .
  from r(2) agrees_self have "h_abs k h' v' = Some (filter_by_endpoint_type t m)" by blast
  moreover from abs_extends(1)[OF assms e] have "h_abs k h' v = Some t" .
  ultimately show ?thesis using r(1) e by blast
qed

lemma list_append_eq:
  "r < length h \<Longrightarrow> h ! r = OList acc \<Longrightarrow> list_append h r v = h[r := OList (acc @ [v])]"
  by (simp add: list_append_def)

lemma upd_same: "h ! r = x \<Longrightarrow> h[r := x] = h"
  using list_update_id[of h r] by auto

lemma h_wc_shape:
  "h_whitelist_comprehension k h r items W = Some (res, h') \<Longrightarrow> r < length h \<Longrightarrow>
   h ! r = OList acc \<Longrightarrow> \<exists>kept. subseq kept items \<and> h' = h[r := OList (acc @ kept)]"
proof (induction items arbitrary: h acc)
  case Nil
  then have "subseq [] [] \<and> h' = h[r := OList (acc @ [])]" by (simp add: upd_same)
  then show ?case by blast
next
  case (Cons item rest)
  have stop: "\<exists>kept. subseq kept (item # rest) \<and> h' = h[r := OList (acc @ kept)]"
    if "h' = h"
  proof -
    from that Cons.prems(3) have "subseq [] (item # rest) \<and> h' = h[r := OList (acc @ [])]"
      by (simp add: upd_same)
    then show ?thesis by blast
  qed
  show ?case
  proof (cases "h_item_get_name h item")
    case (Inl e)
    with Cons.prems have "h' = h" by simp
    then show ?thesis by (rule stop)
  next
    case (Inr n)
    show ?thesis
    proof (cases "h_py_in k h n W")
      case None
      with Cons.prems Inr show ?thesis by simp
    next
      case (Some pr)
      show ?thesis
      proof (cases pr)
        case (Inl e)
        with Cons.prems Inr Some have "h' = h" by simp
        then show ?thesis by (rule stop)
      next
        case keep: (Inr keep)
        show ?thesis
        proof (cases keep)
          case True
          let ?h1 = "h[r := OList (acc @ [item])]"
          have step: "h_whitelist_comprehension k ?h1 r rest W = Some (res, h')"
            using Cons.prems Inr Some keep True by (simp add: list_append_eq)
          have "\<exists>kept. subseq kept rest \<and> h' = ?h1[r := OList ((acc @ [item]) @ kept)]"
            using Cons.IH[OF step] Cons.prems(2) by simp
          then obtain kept where "subseq kept rest" "h' = h[r := OList (acc @ item # kept)]"
            by auto
          then have "subseq (item # kept) (item # rest) \<and>
              h' = h[r := OList (acc @ item # kept)]" by simp
          then show ?thesis by blast
        next
          case False
          have step: "h_whitelist_comprehension k h r rest W = Some (res, h')"
            using Cons.prems Inr Some keep False by simp
          from Cons.IH[OF step Cons.prems(2,3)] obtain kept where
            "subseq kept rest" "h' = h[r := OList (acc @ kept)]" by blast
          then have "subseq kept (item # rest) \<and> h' = h[r := OList (acc @ kept)]"
            by (simp add: list_emb_Cons)
          then show ?thesis by blast
        qed
      qed
    qed
  qed
qed

lemma h_fwf_shape:
  assumes "a < length h" "h ! a = ODict d" "has_key d ''item''"
    "h_filter_by_whitelist_folders k h (VRef a) W = Some (Inr res, h')"
  shows "res = VRef a \<and>
    (\<exists>kept items. h_iter_values h (dict_get d ''item'' VNone) = Inr items \<and>
       subseq kept items \<and>
       h' = (h @ [OList kept])[a := ODict (AList.update ''item'' (VRef (length h)) d)])"
proof -
  from assms obtain items where it: "h_iter_values h (dict_get d ''item'' VNone) = Inr items"
    by (cases "h_iter_values h (dict_get d ''item'' VNone)") auto
  from assms it obtain h1 where c:
    "h_whitelist_comprehension k (h @ [OList []]) (length h) items W = Some (None, h1)"
    "h' = dict_store h1 a ''item'' (VRef (length h))" "res = VRef a"
    by (auto split: option.splits prod.splits)
  from h_wc_shape[OF c(1), of "[]"] obtain kept where kept: "subseq kept items"
    "h1 = (h @ [OList []])[length h := OList kept]" by auto
  then have h1: "h1 = h @ [OList kept]" by simp
  have "h1 ! a = ODict d" using h1 assms(1,2) by (simp add: nth_append)
  then have "dict_store h1 a ''item'' (VRef (length h)) =
      h1[a := ODict (AList.update ''item'' (VRef (length h)) d)]"
    by (simp add: dict_store_def)
  with c h1 it kept(1) show ?thesis by blast
qed

lemma abs_suc:
  "h_abs k h v = Some t \<Longrightarrow> h_abs (Suc k) h v = Some t"
  "h_abs_items k h kvs = Some kts \<Longrightarrow> h_abs_items (Suc k) h kvs = Some kts"
  "h_abs_list k h xs = Some ts \<Longrightarrow> h_abs_list (Suc k) h xs = Some ts"
proof (induction k h v and k h kvs and k h xs arbitrary: t and kts and ts
    rule: h_abs_h_abs_items_h_abs_list.induct)
  case (7 k h a)
  then show ?case
    by (auto split: if_splits obj.splits)
next
  case (9 k h key v rest)
  then show ?case by (auto split: option.splits)
next
  case (11 k h x xs)
  then show ?case by (auto split: option.splits)
qed auto

lemma abs_mono: "h_abs k h v = Some t \<Longrightarrow> k \<le> k' \<Longrightarrow> h_abs k' h v = Some t"
  by (induction k' ) (auto simp: le_Suc_eq abs_suc(1))

lemma size_dict_elem: "(key, t') \<in> set kts \<Longrightarrow> size t' < size (JDict kts)"
  by (induction kts) auto

lemma size_list_elem: "t' \<in> set ts \<Longrightarrow> size t' < size (JList ts)"
  by (induction ts) auto

lemma abs_unique: "h_abs j h v = Some t1 \<Longrightarrow> h_abs k h v = Some t2 \<Longrightarrow> t1 = t2"
  using abs_mono[of j h v t1 "max j k"] abs_mono[of k h v t2 "max j k"] by simp

lemma abs_outside:
  "h_abs j h v = Some tv \<Longrightarrow> h_abs k h (VRef a) = Some t \<Longrightarrow> length h \<le> length g \<Longrightarrow>
     \<forall>b < length h. b \<noteq> a \<longrightarrow> g ! b = h ! b \<Longrightarrow> size tv < size t \<Longrightarrow>
     h_abs j g v = Some tv"
  "h_abs_items j h kvs = Some kts \<Longrightarrow> h_abs k h (VRef a) = Some t \<Longrightarrow>
     length h \<le> length g \<Longrightarrow> \<forall>b < length h. b \<noteq> a \<longrightarrow> g ! b = h ! b \<Longrightarrow>
     \<forall>p \<in> set kts. size (snd p) < size t \<Longrightarrow> h_abs_items j g kvs = Some kts"
  "h_abs_list j h xs = Some ts \<Longrightarrow> h_abs k h (VRef a) = Some t \<Longrightarrow>
     length h \<le> length g \<Longrightarrow> \<forall>b < length h. b \<noteq> a \<longrightarrow> g ! b = h ! b \<Longrightarrow>
     \<forall>x \<in> set ts. size x < size t \<Longrightarrow> h_abs_list j g xs = Some ts"
proof (induction j h v and j h kvs and j h xs arbitrary: tv and kts and ts
    rule: h_abs_h_abs_items_h_abs_list.induct)
  case (7 j h b)
  note root = "7.prems"(2) and len = "7.prems"(3) and same = "7.prems"(4)
  from "7.prems"(1) have b: "b < length h" by (auto split: if_splits)
  have ne: "b \<noteq> a"
  proof
    assume ba: "b = a"
    from "7.prems"(1) have "h_abs (Suc j) h (VRef a) = Some tv" unfolding ba .
    from abs_unique[OF this root] "7.prems"(5) show False by simp
  qed
  with b same len have gb: "b < length g" "g ! b = h ! b" by auto
  show ?case
  proof (cases "h ! b")
    case (ODict kvs)
    with "7.prems"(1) b obtain kts where kts: "h_abs_items j h kvs = Some kts" "tv = JDict kts"
      by auto
    have "\<forall>p \<in> set kts. size (snd p) < size t"
    proof
      fix p assume "p \<in> set kts"
      then have "size (snd p) < size (JDict kts)"
        using size_dict_elem[of "fst p" "snd p" kts] by simp
      with "7.prems"(5) kts(2) show "size (snd p) < size t" by simp
    qed
    from "7.IH"(1)[OF b ODict kts(1) root len same this] gb ODict kts(2) show ?thesis by simp
  next
    case (OList xs)
    with "7.prems"(1) b obtain ts where ts: "h_abs_list j h xs = Some ts" "tv = JList ts"
      by auto
    have "\<forall>x \<in> set ts. size x < size t"
    proof
      fix x assume "x \<in> set ts"
      then have "size x < size (JList ts)" by (rule size_list_elem)
      with "7.prems"(5) ts(2) show "size x < size t" by simp
    qed
    from "7.IH"(2)[OF b OList ts(1) root len same this] gb OList ts(2) show ?thesis by simp
  qed
next
  case (9 j h key v rest)
  from "9.prems"(1) obtain tv kts' where kt:
    "h_abs j h v = Some tv" "h_abs_items j h rest = Some kts'" "kts = (key, tv) # kts'"
    by (auto split: option.splits)
  have "size tv < size t" "\<forall>p \<in> set kts'. size (snd p) < size t"
    using "9.prems"(5) kt(3) by auto
  with "9.IH"(1)[OF kt(1) "9.prems"(2-4)] "9.IH"(2)[OF kt(1) kt(2) "9.prems"(2-4)] kt(3)
  show ?case by simp
next
  case (11 j h x xs)
  from "11.prems"(1) obtain tv ts' where kt:
    "h_abs j h x = Some tv" "h_abs_list j h xs = Some ts'" "ts = tv # ts'"
    by (auto split: option.splits)
  have "size tv < size t" "\<forall>y \<in> set ts'. size y < size t"
    using "11.prems"(5) kt(3) by auto
  with "11.IH"(1)[OF kt(1) "11.prems"(2-4)] "11.IH"(2)[OF kt(1) kt(2) "11.prems"(2-4)] kt(3)
  show ?case by simp
qed auto

lemma name_corr:
  assumes "h_abs kk h0 item = Some tx" "extends h0 h" "kk \<le> k"
  shows "case item_get_name tx of
           Inl e \<Rightarrow> h_item_get_name h item = Inl e
         | Inr tn \<Rightarrow> \<exists>n. h_item_get_name h item = Inr n \<and> h_abs k h n = Some tn"
proof (cases "\<exists>c. item = VRef c")
  case False
  then have nr: "\<forall>c. item \<noteq> VRef c" by simp
  from abs_scalar[OF assms(1) nr] have "is_scalar tx" by simp
  then have "item_get_name tx = Inl AttributeError" by (cases tx) auto
  moreover have "h_item_get_name h item = Inl AttributeError" using nr by (cases item) auto
  ultimately show ?thesis by simp
next
  case True
  then obtain c where c: "item = VRef c" by blast
  from assms(1) c obtain k' where k': "kk = Suc k'" "c < length h0"
    by (cases kk) (auto split: if_splits)
  with assms(2) have hc: "h ! c = h0 ! c" by (auto simp: extends_iff)
  show ?thesis
  proof (cases "h0 ! c")
    case (OList xs)
    with assms(1) c k' obtain ts where "tx = JList ts" by auto
    with c hc OList show ?thesis by simp
  next
    case (ODict dd)
    with assms(1) c k' obtain dt where dt: "h_abs_items k' h0 dd = Some dt" "tx = JDict dt"
      by auto
    have "h_abs k h (dict_get dd ''name'' VNone) = Some (dict_get dt ''name'' JNone)"
    proof (cases "map_of dd ''name''")
      case None
      with abs_items_lookup[OF dt(1), of "''name''"] have "map_of dt ''name'' = None" by simp
      moreover obtain k0 where "k = Suc k0" using assms(3) k'(1) by (cases k) auto
      ultimately show ?thesis using None by (simp add: dict_get_def)
    next
      case (Some x)
      with abs_items_lookup[OF dt(1), of "''name''"] obtain tn where
        tn: "h_abs k' h0 x = Some tn" "map_of dt ''name'' = Some tn" by auto
      have "k' \<le> k" using assms(3) k'(1) by simp
      from abs_mono[OF tn(1) this] have "h_abs k h0 x = Some tn" .
      from abs_extends(1)[OF this assms(2)] Some tn(2) show ?thesis
        by (simp add: dict_get_def)
    qed
    with c hc ODict dt(2) show ?thesis by simp
  qed
qed

lemma wc_refines:
  "h_abs_list kk h0 items = Some ts \<Longrightarrow> kk \<le> k \<Longrightarrow> h_abs k h0 W = Some w \<Longrightarrow>
   extends h0 h \<Longrightarrow> length h0 \<le> r \<Longrightarrow> r < length h \<Longrightarrow> h ! r = OList acc \<Longrightarrow>
   \<exists>res h'. h_whitelist_comprehension k h r items W = Some (res, h') \<and>
     (case whitelist_comprehension ts w of
        Inl e \<Rightarrow> res = Some e
      | Inr kept_t \<Rightarrow> res = None \<and>
          (\<exists>kept. h' = h[r := OList (acc @ kept)] \<and> h_abs_list kk h0 kept = Some kept_t))"
proof (induction items arbitrary: ts h acc)
  case Nil
  then have "ts = []" "h = h[r := OList (acc @ [])]" "h_abs_list kk h0 [] = Some []"
    by (simp_all add: upd_same)
  then have "\<exists>kept. h = h[r := OList (acc @ kept)] \<and> h_abs_list kk h0 kept = Some []"
    by blast
  with \<open>ts = []\<close> show ?case by simp
next
  case (Cons item rest)
  from Cons.prems(1) obtain tx ts' where kt:
    "h_abs kk h0 item = Some tx" "h_abs_list kk h0 rest = Some ts'" "ts = tx # ts'"
    by (auto split: option.splits)
  note nc = name_corr[OF kt(1) Cons.prems(4) Cons.prems(2)]
  show ?case
  proof (cases "item_get_name tx")
    case (Inl e)
    with nc kt(3) show ?thesis by simp
  next
    case (Inr tn)
    with nc obtain n where n: "h_item_get_name h item = Inr n" "h_abs k h n = Some tn"
      by auto
    have w: "h_abs k h W = Some w" using Cons.prems(3,4) by (rule abs_extends(1))
    have pin: "h_py_in k h n W = Some (py_in tn w)" using n(2) w by (simp add: h_py_in_def)
    show ?thesis
    proof (cases "py_in tn w")
      case (Inl e)
      with Inr n(1) pin kt(3) show ?thesis by simp
    next
      case keep: (Inr keep)
      let ?h1 = "if keep then list_append h r item else h"
      let ?acc1 = "if keep then acc @ [item] else acc"
      have e1: "extends h0 ?h1"
        using Cons.prems(4,5) by (auto simp: extends_iff list_append_other)
      have r1: "r < length ?h1" using Cons.prems(6) by simp
      have a1: "?h1 ! r = OList ?acc1"
        using Cons.prems(6,7) by (simp add: list_append_at)
      from Cons.IH[OF kt(2) Cons.prems(2,3) e1 Cons.prems(5) r1 a1]
      obtain res h' where ih:
        "h_whitelist_comprehension k ?h1 r rest W = Some (res, h')"
        "case whitelist_comprehension ts' w of
           Inl e \<Rightarrow> res = Some e
         | Inr kept_t \<Rightarrow> res = None \<and>
             (\<exists>kept. h' = ?h1[r := OList (?acc1 @ kept)] \<and> h_abs_list kk h0 kept = Some kept_t)"
        by blast
      have run: "h_whitelist_comprehension k h r (item # rest) W = Some (res, h')"
        using n(1) pin keep ih(1) by simp
      show ?thesis
      proof (cases "whitelist_comprehension ts' w")
        case (Inl e)
        with ih(2) run Inr keep kt(3) show ?thesis by simp
      next
        case kept: (Inr kept_t)
        with ih(2) obtain kept' where k': "res = None"
          "h' = ?h1[r := OList (?acc1 @ kept')]" "h_abs_list kk h0 kept' = Some kept_t"
          by auto
        show ?thesis
        proof (cases keep)
          case True
          have "h' = h[r := OList (acc @ item # kept')]"
            using k'(2) True Cons.prems(6,7) by (simp add: list_append_eq)
          moreover have "h_abs_list kk h0 (item # kept') = Some (tx # kept_t)"
            using kt(1) k'(3) by simp
          ultimately show ?thesis
            using run k'(1) Inr keep kept kt(3) True by auto
        next
          case False
          with k'(2) have "h' = h[r := OList (acc @ kept')]" by simp
          with run k' Inr keep kept kt(3) False show ?thesis by auto
        qed
      qed
    qed
  qed
qed

lemma wc_sublist:
  "whitelist_comprehension ts w = Inr kept \<Longrightarrow> set kept \<subseteq> set ts"
proof (induction ts arbitrary: kept)
  case Nil
  then show ?case by simp
next
  case (Cons x ts)
  then show ?case by (auto split: sum.splits if_splits)
qed

lemma wc_strs_pure:
  "whitelist_comprehension (map JStr ss) w = (if ss = [] then Inr [] else Inl AttributeError)"
  by (cases ss) auto

lemma wc_strs_heap:
  "h_whitelist_comprehension k h r (map VStr ss) W =
     Some (if ss = [] then None else Some AttributeError, h)"
  by (cases ss) auto

lemma fwf_scalar: "\<not> is_dict t \<Longrightarrow> filter_by_whitelist_folders t w = Inr t"
  by (cases t) auto

lemma store_item_readback:
  assumes root: "h_abs (Suc k1) h (VRef a) = Some (JDict kts)"
    and a: "a < length h" "h ! a = ODict d"
    and kts: "h_abs_items k1 h d = Some kts"
    and k2: "k1 = Suc k2"
    and kept: "h_abs_list k2 h kept = Some kept_t"
    and small: "\<forall>x \<in> set kept_t. size x < size (JDict kts)"
  shows "h_abs (Suc k1)
      ((h @ [OList kept])[a := ODict (AList.update ''item'' (VRef (length h)) d)]) (VRef a) =
    Some (JDict (AList.update ''item'' (JList kept_t) kts))"
proof -
  let ?r = "length h"
  let ?g = "(h @ [OList kept])[a := ODict (AList.update ''item'' (VRef ?r) d)]"
  have len: "length h \<le> length ?g" by simp
  have same: "\<forall>b < length h. b \<noteq> a \<longrightarrow> ?g ! b = h ! b" by (simp add: nth_append)
  have vals: "\<forall>p \<in> set kts. size (snd p) < size (JDict kts)"
    using size_dict_elem[of _ _ kts] by auto
  have d': "h_abs_items k1 ?g d = Some kts"
    using abs_outside(2)[OF kts root len same vals] .
  have kept': "h_abs_list k2 ?g kept = Some kept_t"
    using abs_outside(3)[OF kept root len same small] .
  have gr: "?r < length ?g" "?g ! ?r = OList kept" using a(1) by (simp_all add: nth_append)
  have "h_abs k1 ?g (VRef ?r) = Some (JList kept_t)"
    using gr kept' k2 by simp
  from abs_items_update[OF d' this]
  have "h_abs_items k1 ?g (AList.update ''item'' (VRef ?r) d) =
      Some (AList.update ''item'' (JList kept_t) kts)" .
  moreover have "a < length ?g" "?g ! a = ODict (AList.update ''item'' (VRef ?r) d)"
    using a(1) by simp_all
  ultimately show ?thesis by simp
qed

lemma h_fwf_refines:
  assumes "h_abs k h data = Some t" "h_abs k h W = Some w"
  shows "\<exists>res h'. h_filter_by_whitelist_folders k h data W = Some (res, h') \<and>
    (case filter_by_whitelist_folders t w of
       Inl e \<Rightarrow> res = Inl e
     | Inr t' \<Rightarrow> res = Inr data \<and> h_abs k h' data = Some t')"
proof (cases "\<exists>a. data = VRef a")
  case False
  then have nr: "\<forall>a. data \<noteq> VRef a" by simp
  from abs_scalar[OF assms(1) nr] have "is_scalar t" by simp
  then have "filter_by_whitelist_folders t w = Inr t" by (cases t) auto
  moreover have "h_filter_by_whitelist_folders k h data W = Some (Inr data, h)"
    using nr by (cases data) auto
  ultimately show ?thesis using assms(1) by simp
next
  case True
  then obtain a where data: "data = VRef a" by blast
  from assms(1) data obtain k1 where k1: "k = Suc k1" "a < length h"
    by (cases k) (auto split: if_splits)
  show ?thesis
  proof (cases "h ! a")
    case (OList xs)
    with assms(1) data k1 obtain ts where "t = JList ts" by auto
    with data k1 OList assms(1) show ?thesis by simp
  next
    case (ODict d)
    with assms(1) data k1 obtain kts where kts: "h_abs_items k1 h d = Some kts" "t = JDict kts"
      by auto
    have root: "h_abs (Suc k1) h (VRef a) = Some (JDict kts)"
      using assms(1) data k1(1) kts(2) by simp
    have hk: "has_key kts ''item'' = has_key d ''item''"
      using kts(1) by (rule abs_items_has_key)
    show ?thesis
    proof (cases "has_key d ''item''")
      case False
      with data k1 ODict hk kts(2) assms(1) show ?thesis by simp
    next
      case True
      then obtain iv where iv: "map_of d ''item'' = Some iv" by (auto simp: has_key_def)
      with abs_items_lookup[OF kts(1), of "''item''"] obtain tiv where
        tiv: "h_abs k1 h iv = Some tiv" "map_of kts ''item'' = Some tiv" by auto
      have dg: "dict_get d ''item'' VNone = iv" "dict_get kts ''item'' JNone = tiv"
        using iv tiv(2) by (simp_all add: dict_get_def)
      have tiv_small: "size tiv < size (JDict kts)"
        using map_of_SomeD[OF tiv(2)] by (rule size_dict_elem)
      let ?r = "length h"
      have pure: "filter_by_whitelist_folders t w =
          (case iter_values tiv of
             Inl e \<Rightarrow> Inl e
           | Inr items \<Rightarrow>
               (case whitelist_comprehension items w of
                  Inl e \<Rightarrow> Inl e
                | Inr kept \<Rightarrow> Inr (JDict (AList.update ''item'' (JList kept) kts))))"
        using kts(2) hk True dg(2) by simp
      have heap: "h_filter_by_whitelist_folders k h data W =
          (case h_iter_values h iv of
             Inl e \<Rightarrow> Some (Inl e, h)
           | Inr items \<Rightarrow>
               (case h_whitelist_comprehension k (h @ [OList []]) ?r items W of
                  None \<Rightarrow> None
                | Some (Some e, h') \<Rightarrow> Some (Inl e, h')
                | Some (None, h') \<Rightarrow>
                    Some (Inr (VRef a), dict_store h' a ''item'' (VRef ?r))))"
        using data k1(2) ODict True dg(1) by simp
      obtain k2 where k2: "k1 = Suc k2" using tiv(1) by (cases k1) auto
      have strs: ?thesis
        if it: "h_iter_values h iv = Inr (map VStr ss)" "iter_values tiv = Inr (map JStr ss)"
        for ss
      proof (cases "ss = []")
        case False
        with pure heap it show ?thesis by (simp add: wc_strs_pure wc_strs_heap)
      next
        case True
        have store: "dict_store (h @ [OList []]) a ''item'' (VRef ?r) =
            (h @ [OList []])[a := ODict (AList.update ''item'' (VRef ?r) d)]"
          using k1(2) ODict by (simp add: dict_store_def nth_append)
        have "h_abs (Suc k1)
            ((h @ [OList []])[a := ODict (AList.update ''item'' (VRef ?r) d)]) (VRef a) =
          Some (JDict (AList.update ''item'' (JList []) kts))"
          by (rule store_item_readback[OF root k1(2) ODict kts(1) k2]) simp_all
        with True pure heap it store data k1(1) show ?thesis by simp
      qed
      show ?thesis
      proof (cases iv)
        case (VRef b)
        from tiv(1) VRef k2 have b: "b < length h" by (auto split: if_splits)
        show ?thesis
        proof (cases "h ! b")
          case bl: (OList xs)
          with tiv(1) VRef k2 b obtain ts where ts: "h_abs_list k2 h xs = Some ts" "tiv = JList ts"
            by auto
          have it: "h_iter_values h iv = Inr xs" "iter_values tiv = Inr ts"
            using VRef bl ts(2) by simp_all
          have "k2 \<le> k" using k1(1) k2 by simp
          from wc_refines[OF ts(1) this assms(2) extends_append, of ?r "[OList []]" "[]"]
          obtain res h' where c:
            "h_whitelist_comprehension k (h @ [OList []]) ?r xs W = Some (res, h')"
            "case whitelist_comprehension ts w of
               Inl e \<Rightarrow> res = Some e
             | Inr kept_t \<Rightarrow> res = None \<and>
                 (\<exists>kept. h' = (h @ [OList []])[?r := OList ([] @ kept)] \<and>
                    h_abs_list k2 h kept = Some kept_t)"
            by auto
          show ?thesis
          proof (cases "whitelist_comprehension ts w")
            case (Inl e)
            with c pure heap it show ?thesis by simp
          next
            case (Inr kept_t)
            with c(2) obtain kept where kept: "res = None" "h' = h @ [OList kept]"
              "h_abs_list k2 h kept = Some kept_t" by auto
            have store: "dict_store h' a ''item'' (VRef ?r) =
                (h @ [OList kept])[a := ODict (AList.update ''item'' (VRef ?r) d)]"
              using kept(2) k1(2) ODict by (simp add: dict_store_def nth_append)
            have small: "\<forall>x \<in> set kept_t. size x < size (JDict kts)"
            proof
              fix x assume "x \<in> set kept_t"
              with wc_sublist[OF Inr] have "x \<in> set ts" by auto
              then have "size x < size (JList ts)" by (rule size_list_elem)
              with tiv_small ts(2) show "size x < size (JDict kts)" by simp
            qed
            have "h_abs (Suc k1)
                ((h @ [OList kept])[a := ODict (AList.update ''item'' (VRef ?r) d)]) (VRef a) =
              Some (JDict (AList.update ''item'' (JList kept_t) kts))"
              by (rule store_item_readback[OF root k1(2) ODict kts(1) k2 kept(3) small])
            with Inr c(1) kept(1) pure heap it store data k1(1) show ?thesis by simp
          qed
        next
          case bd: (ODict dd)
          with tiv(1) VRef k2 b obtain dt where dt: "h_abs_items k2 h dd = Some dt"
            "tiv = JDict dt" by auto
          have keys: "map fst dt = map fst dd"
            using dt(1) by (induction dd arbitrary: dt) (auto split: option.splits)
          have "h_iter_values h iv = Inr (map VStr (map fst dd))"
            using VRef bd by simp
          moreover have "iter_values tiv = Inr (map JStr (map fst dd))"
            using dt(2) keys[symmetric] by simp
          ultimately show ?thesis by (rule strs)
        qed
      next
        case (VStr s)
        with tiv(1) k2 have "tiv = JStr s" by simp
        then have "iter_values tiv = Inr (map JStr (map (\<lambda>c. [c]) s))" by simp
        moreover have "h_iter_values h iv = Inr (map VStr (map (\<lambda>c. [c]) s))"
          using VStr by simp
        ultimately show ?thesis by (rule strs[rotated])
      qed (use tiv(1) k2 pure heap in auto)
    qed
  qed
qed

lemma h_fwf_effect:
  assumes "a < length h" "h ! a = ODict d" "has_key d ''item''"
    "h_filter_by_whitelist_folders k h (VRef a) W = Some (Inr res, h3)"
  shows "res = VRef a \<and>
    (\<exists>kept items. h_iter_values h (dict_get d ''item'' VNone) = Inr items \<and>
         subseq kept items \<and>
         h3 = (h @ [OList kept])[a := ODict (AList.update ''item'' (VRef (length h)) d)]) \<and>
    (\<forall>b < length h. b \<noteq> a \<longrightarrow> h3 ! b = h ! b) \<and>
    map fst (dict_at h3 a) = map fst d \<and>
    (\<forall>key. key \<noteq> ''item'' \<longrightarrow> map_of (dict_at h3 a) key = map_of d key) \<and>
    map_of (dict_at h3 a) ''item'' = Some (VRef (length h)) \<and>
    (map_of d ''item'' \<noteq> Some (VRef (length h)) \<longrightarrow> h3 ! a \<noteq> h ! a)"
proof -
  from h_fwf_shape[OF assms] obtain kept items where s: "res = VRef a"
    "h3 = (h @ [OList kept])[a := ODict (AList.update ''item'' (VRef (length h)) d)]"
    and sub: "h_iter_values h (dict_get d ''item'' VNone) = Inr items" "subseq kept items"
    by blast
  have at: "h3 ! a = ODict (AList.update ''item'' (VRef (length h)) d)"
    using s(2) assms(1) by simp
  then have da: "dict_at h3 a = AList.update ''item'' (VRef (length h)) d"
    by (simp add: dict_at_def)
  have other: "\<forall>b < length h. b \<noteq> a \<longrightarrow> h3 ! b = h ! b"
    using s(2) by (simp add: nth_append)
  have "''item'' \<in> fst ` set d"
    using assms(3) by (auto simp: has_key_def map_of_eq_None_iff)
  then have keys: "map fst (dict_at h3 a) = map fst d"
    unfolding da by (simp add: update_keys)
  have vals: "\<forall>key. key \<noteq> ''item'' \<longrightarrow> map_of (dict_at h3 a) key = map_of d key"
    unfolding da by (simp add: update_conv')
  have item: "map_of (dict_at h3 a) ''item'' = Some (VRef (length h))"
    unfolding da by (simp add: update_conv')
  have changed: "map_of d ''item'' \<noteq> Some (VRef (length h)) \<longrightarrow> h3 ! a \<noteq> h ! a"
  proof
    assume ne: "map_of d ''item'' \<noteq> Some (VRef (length h))"
    show "h3 ! a \<noteq> h ! a"
    proof
      assume "h3 ! a = h ! a"
      with at assms(2) have "AList.update ''item'' (VRef (length h)) d = d" by simp
      then have "map_of (AList.update ''item'' (VRef (length h)) d) ''item'' = map_of d ''item''"
        by simp
      with ne show False by (simp add: update_conv')
    qed
  qed
  from s sub other keys vals item changed show ?thesis by blast
qed

text \<open>
  Claim C8. \<^verbatim>\<open>remove_descriptions\<close> and \<^verbatim>\<open>filter_by_endpoint_type\<close> never mutate their
  input: whenever a call returns, every object that was in the store before the call is
  in it unchanged afterwards, and the result is built from new objects; on a store in
  which the argument stands for a tree the call does return, the argument still stands
  for the same tree and the result stands for what the function on trees gives.
  \<^verbatim>\<open>filter_by_whitelist_folders\<close> mutates its input mapping in place: it returns the
  address it was given, the object at that address has the same keys in the same order
  and the same values except that \<^verbatim>\<open>item\<close> now refers to a newly allocated list, and
  every other object is unchanged; on a store in which the collection and the whitelist
  stand for trees the call returns, with the error or the mutated collection that the
  function on trees gives.
\<close>

theorem filters_effect_on_store:
  "(h_abs k h data = Some t \<longrightarrow>
      (\<exists>v h'. h_remove_descriptions k h data = Some (v, h') \<and> extends h h' \<and>
         h_abs k h' v = Some (remove_descriptions t) \<and> h_abs k h' data = Some t)) \<and>
   (h_abs k h data = Some t \<longrightarrow>
      (\<exists>v h'. h_filter_by_endpoint_type k h data m = Some (v, h') \<and> extends h h' \<and>
         h_abs k h' v = Some (filter_by_endpoint_type t m) \<and> h_abs k h' data = Some t)) \<and>
   (h_remove_descriptions n h data = Some (v1, h1) \<longrightarrow> extends h h1) \<and>
   (h_filter_by_endpoint_type n h data m = Some (v2, h2) \<longrightarrow> extends h h2) \<and>
   (a < length h \<and> h ! a = ODict d \<and> has_key d ''item'' \<and>
    h_filter_by_whitelist_folders k h (VRef a) W = Some (Inr res, h3) \<longrightarrow>
      res = VRef a \<and>
      (\<exists>kept items. h_iter_values h (dict_get d ''item'' VNone) = Inr items \<and>
         subseq kept items \<and>
         h3 = (h @ [OList kept])[a := ODict (AList.update ''item'' (VRef (length h)) d)]) \<and>
      (\<forall>b < length h. b \<noteq> a \<longrightarrow> h3 ! b = h ! b) \<and>
      map fst (dict_at h3 a) = map fst d \<and>
      (\<forall>key. key \<noteq> ''item'' \<longrightarrow> map_of (dict_at h3 a) key = map_of d key) \<and>
      map_of (dict_at h3 a) ''item'' = Some (VRef (length h)) \<and>
      (map_of d ''item'' \<noteq> Some (VRef (length h)) \<longrightarrow> h3 ! a \<noteq> h ! a)) \<and>
   (h_abs k h data = Some t \<and> h_abs k h W = Some w \<longrightarrow>
      (\<exists>res' h'. h_filter_by_whitelist_folders k h data W = Some (res', h') \<and>
         (case filter_by_whitelist_folders t w of
            Inl e \<Rightarrow> res' = Inl e
          | Inr t' \<Rightarrow> res' = Inr data \<and> h_abs k h' data = Some t')))"
proof -
  have c1: "h_abs k h data = Some t \<longrightarrow>
      (\<exists>v h'. h_remove_descriptions k h data = Some (v, h') \<and> extends h h' \<and>
         h_abs k h' v = Some (remove_descriptions t) \<and> h_abs k h' data = Some t)"
    using h_rd_refines[of k h data t] by blast
  have c2: "h_abs k h data = Some t \<longrightarrow>
      (\<exists>v h'. h_filter_by_endpoint_type k h data m = Some (v, h') \<and> extends h h' \<and>
         h_abs k h' v = Some (filter_by_endpoint_type t m) \<and> h_abs k h' data = Some t)"
    using h_fbe_refines[of k h data t m] by blast
  have c3: "h_remove_descriptions n h data = Some (v1, h1) \<longrightarrow> extends h h1"
    using h_rd_frame(1)[of n h data v1 h1] by blast
  have c4: "h_filter_by_endpoint_type n h data m = Some (v2, h2) \<longrightarrow> extends h h2"
    using h_fbe_frame(1)[of n h data m v2 h2] by blast
  have c5: "a < length h \<and> h ! a = ODict d \<and> has_key d ''item'' \<and>
    h_filter_by_whitelist_folders k h (VRef a) W = Some (Inr res, h3) \<longrightarrow>
      res = VRef a \<and>
      (\<exists>kept items. h_iter_values h (dict_get d ''item'' VNone) = Inr items \<and>
         subseq kept items \<and>
         h3 = (h @ [OList kept])[a := ODict (AList.update ''item'' (VRef (length h)) d)]) \<and>
      (\<forall>b < length h. b \<noteq> a \<longrightarrow> h3 ! b = h ! b) \<and>
      map fst (dict_at h3 a) = map fst d \<and>
      (\<forall>key. key \<noteq> ''item'' \<longrightarrow> map_of (dict_at h3 a) key = map_of d key) \<and>
      map_of (dict_at h3 a) ''item'' = Some (VRef (length h)) \<and>
      (map_of d ''item'' \<noteq> Some (VRef (length h)) \<longrightarrow> h3 ! a \<noteq> h ! a)"
    using h_fwf_effect[of a h d k W res h3] by blast
  have c6: "h_abs k h data = Some t \<and> h_abs k h W = Some w \<longrightarrow>
      (\<exists>res' h'. h_filter_by_whitelist_folders k h data W = Some (res', h') \<and>
         (case filter_by_whitelist_folders t w of
            Inl e \<Rightarrow> res' = Inl e
          | Inr t' \<Rightarrow> res' = Inr data \<and> h_abs k h' data = Some t'))"
    using h_fwf_refines[of k h data t W w] by blast
  show ?thesis
    by (rule conjI[OF c1 conjI[OF c2 conjI[OF c3 conjI[OF c4 conjI[OF c5 c6]]]]])
qed

theorem filters_effect_on_store_witness:
  "h_abs 4 example_heap (VRef 0) =
     Some (JDict [(''description'', JStr ''d''),
                  (''item'', JList [JDict [(''name'', JStr ''X'')]])]) \<and>
   h_abs 4 example_heap (VRef 3) = Some (JList [JStr ''X'']) \<and>
   h_remove_descriptions 4 example_heap (VRef 0) =
     Some (VRef 4, example_heap @
       [ODict [(''item'', VRef 5)], OList [VRef 6], ODict [(''name'', VStr ''X'')]]) \<and>
   extends example_heap (example_heap @
       [ODict [(''item'', VRef 5)], OList [VRef 6], ODict [(''name'', VStr ''X'')]]) \<and>
   h_filter_by_endpoint_type 4 example_heap (VRef 0) ''GET'' =
     Some (VRef 4, example_heap @
       [ODict [(''description'', VStr ''d''), (''item'', VRef 5)], OList [VRef 6],
        ODict [(''name'', VStr ''X'')]]) \<and>
   extends example_heap (example_heap @
       [ODict [(''description'', VStr ''d''), (''item'', VRef 5)], OList [VRef 6],
        ODict [(''name'', VStr ''X'')]]) \<and>
   0 < length example_heap \<and>
   example_heap ! 0 = ODict [(''description'', VStr ''d''), (''item'', VRef 1)] \<and>
   has_key [(''description'', VStr ''d''), (''item'', VRef (1::nat))] ''item'' \<and>
   h_filter_by_whitelist_folders 4 example_heap (VRef 0) (VRef 3) =
     Some (Inr (VRef 0),
       [ODict [(''description'', VStr ''d''), (''item'', VRef 4)], OList [VRef 2],
        ODict [(''name'', VStr ''X'')], OList [VStr ''X''], OList [VRef 2]])"
proof -
  note inst = filters_effect_on_store[where k = 4 and h = example_heap and data = "VRef 0"
      and t = "JDict [(''description'', JStr ''d''),
                      (''item'', JList [JDict [(''name'', JStr ''X'')]])]"
      and m = "''GET''" and n = 4
      and ?v1.0 = "VRef 4"
      and ?h1.0 = "example_heap @
       [ODict [(''item'', VRef 5)], OList [VRef 6], ODict [(''name'', VStr ''X'')]]"
      and ?v2.0 = "VRef 4"
      and ?h2.0 = "example_heap @
       [ODict [(''description'', VStr ''d''), (''item'', VRef 5)], OList [VRef 6],
        ODict [(''name'', VStr ''X'')]]"
      and a = 0 and d = "[(''description'', VStr ''d''), (''item'', VRef 1)]"
      and W = "VRef 3" and res = "VRef 0"
      and ?h3.0 = "[ODict [(''description'', VStr ''d''), (''item'', VRef 4)], OList [VRef 2],
        ODict [(''name'', VStr ''X'')], OList [VStr ''X''], OList [VRef 2]]"
      and w = "JList [JStr ''X'']"]
  have f1: "h_abs 4 example_heap (VRef 0) =
     Some (JDict [(''description'', JStr ''d''),
                  (''item'', JList [JDict [(''name'', JStr ''X'')]])])"
    by code_simp
  have f2: "h_abs 4 example_heap (VRef 3) = Some (JList [JStr ''X''])"
    by code_simp
  have f3: "h_remove_descriptions 4 example_heap (VRef 0) =
     Some (VRef 4, example_heap @
       [ODict [(''item'', VRef 5)], OList [VRef 6], ODict [(''name'', VStr ''X'')]])"
    by code_simp
  have f4: "h_filter_by_endpoint_type 4 example_heap (VRef 0) ''GET'' =
     Some (VRef 4, example_heap @
       [ODict [(''description'', VStr ''d''), (''item'', VRef 5)], OList [VRef 6],
        ODict [(''name'', VStr ''X'')]])"
    by code_simp
  have f5: "0 < length example_heap"
    "example_heap ! 0 = ODict [(''description'', VStr ''d''), (''item'', VRef 1)]"
    "has_key [(''description'', VStr ''d''), (''item'', VRef (1::nat))] ''item''"
    by (simp_all add: example_heap_def has_key_def)
  have f6: "h_filter_by_whitelist_folders 4 example_heap (VRef 0) (VRef 3) =
     Some (Inr (VRef 0),
       [ODict [(''description'', VStr ''d''), (''item'', VRef 4)], OList [VRef 2],
        ODict [(''name'', VStr ''X'')], OList [VStr ''X''], OList [VRef 2]])"
    by code_simp
  have f7: "extends example_heap (example_heap @
       [ODict [(''item'', VRef 5)], OList [VRef 6], ODict [(''name'', VStr ''X'')]])"
    using inst f3 by blast
  have f8: "extends example_heap (example_heap @
       [ODict [(''description'', VStr ''d''), (''item'', VRef 5)], OList [VRef 6],
        ODict [(''name'', VStr ''X'')]])"
    using inst f4 by blast
  show ?thesis
    by (intro conjI f1 f2 f3 f4 f5 f6 f7 f8)
qed

end
